theory Spec2Isabelle
  imports Main "HOL-Library.Word" "HOL-Library.List_Lexorder" "HOL-Library.Char_ord"
begin

section \<open>The chat server: credentials, store, registry and broadcast\<close>

text \<open>
  The development embeds \<^verbatim>\<open>auth.py\<close>, \<^verbatim>\<open>database.py\<close> and \<^verbatim>\<open>server.py\<close>.
  A Python string is the list of the bytes of its UTF-8 encoding here (\<open>string\<close>), so
  \<^verbatim>\<open>str.encode("utf-8")\<close> is the identity on the bytes. Everything the code reads
  from its environment is a field of the state: the wall clock, the operating system's random bytes, the outcome of
  each database transaction and the health of each socket. Exceptions are values of
  type \<open>error\<close>; a function that can raise returns \<open>error + 'a\<close> beside the new state.
  The \<^verbatim>\<open>print\<close> calls of the server only write to the console and are left out.
\<close>

subsection \<open>Exceptions and bytes\<close>

datatype error =
    OSError | OperationalError | IntegrityError | ValueError | UnicodeDecodeError | OverflowError

type_synonym byte = "8 word"
type_synonym bytes = "byte list"

text \<open>\<^verbatim>\<open>hashlib.pbkdf2_hmac(hash_name, password, salt, iterations)\<close> is a library
  function: it is a parameter of everything that hashes.\<close>

type_synonym kdf = "string \<Rightarrow> bytes \<Rightarrow> bytes \<Rightarrow> nat \<Rightarrow> bytes"

definition encode :: "string \<Rightarrow> bytes" where
  "encode s = map (\<lambda>c. of_nat (of_char c)) s"

text \<open>\<^verbatim>\<open>bytes.hex()\<close>: two lower-case digits for each byte, \<open>0\<close> to \<open>9\<close> (from
  code 48) and \<open>a\<close> to \<open>f\<close> (from code 97).\<close>

definition hexdigit :: "nat \<Rightarrow> char" where
  "hexdigit n = (if n < 10 then char_of (48 + n) else char_of (87 + n))"

definition hex_byte :: "byte \<Rightarrow> string" where
  "hex_byte b = [hexdigit (unat b div 16), hexdigit (unat b mod 16)]"

definition hex :: "bytes \<Rightarrow> string" where
  "hex bs = concat (map hex_byte bs)"

text \<open>\<^verbatim>\<open>bytes.fromhex(s)\<close>: ASCII whitespace before a pair of digits is skipped,
  digits of either case are read, anything else raises \<^verbatim>\<open>ValueError\<close>.\<close>

definition hexval :: "char \<Rightarrow> nat option" where
  "hexval c = (let n = (of_char c :: nat) in
     if 48 \<le> n \<and> n \<le> 57 then Some (n - 48)
     else if 97 \<le> n \<and> n \<le> 102 then Some (n - 87)
     else if 65 \<le> n \<and> n \<le> 70 then Some (n - 55)
     else None)"

definition ascii_space :: "char \<Rightarrow> bool" where
  "ascii_space c = ((of_char c :: nat) \<in> {9, 10, 11, 12, 13, 32})"

fun fromhex :: "string \<Rightarrow> error + bytes" where
  "fromhex [] = Inr []"
| "fromhex [c] = (if ascii_space c then Inr [] else Inl ValueError)"
| "fromhex (c # d # ds) =
     (if ascii_space c then fromhex (d # ds)
      else case (hexval c, hexval d) of
        (Some h, Some l) \<Rightarrow>
          (case fromhex ds of
             Inl e \<Rightarrow> Inl e
           | Inr bs \<Rightarrow> Inr (of_nat (16 * h + l) # bs))
      | _ \<Rightarrow> Inl ValueError)"

subsection \<open>The state\<close>

text \<open>A socket, seen from the server: the bytes handed to the peer so far and how many
  more bytes it accepts before \<^verbatim>\<open>sendall\<close> raises \<^verbatim>\<open>OSError\<close> (\<open>None\<close>: no
  limit); then the three things that \<^verbatim>\<open>socket.close\<close> works on: whether \<^verbatim>\<open>close\<close>
  was called, how many file objects made by \<^verbatim>\<open>makefile\<close> are alive, and whether the
  descriptor was given back to the operating system.\<close>

record socket =
  outgoing :: bytes
  budget :: "nat option"
  closed :: bool
  io_refs :: nat
  released :: bool

text \<open>An entry of the \<^verbatim>\<open>clients\<close> list: the dictionary
  \<^verbatim>\<open>{"conn": socket_object, "username": str}\<close>; a socket object is its identity.\<close>

record client =
  conn :: nat
  username :: string

text \<open>The calls whose order matters, recorded as they are made.\<close>

datatype event =
    Save_message string string
  | Send_line nat string
  | Append_client nat string
  | Remove_client nat
  | Close nat

text \<open>
  \<open>users\<close> and \<open>messages\<close> are the two tables, rows in the order of insertion;
  \<open>seq\<close> is the largest \<^verbatim>\<open>message_id\<close> ever given out (\<^verbatim>\<open>AUTOINCREMENT\<close>).
  The \<open>n\<close>-th transaction fails when \<open>faults n\<close>, the \<open>n\<close>-th reading of the clock is
  \<open>clock n\<close> (already formatted \<^verbatim>\<open>%Y-%m-%d %H:%M:%S\<close>), the \<open>n\<close>-th call of
  \<^verbatim>\<open>os.urandom(16)\<close> gives \<open>entropy n\<close>.
\<close>

record world =
  users :: "(string \<times> string \<times> string) list"
  messages :: "(nat \<times> string \<times> string \<times> string) list"
  seq :: nat
  clients :: "client list"
  socks :: "nat \<Rightarrow> socket"
  faults :: "nat \<Rightarrow> bool"
  txn :: nat
  clock :: "nat \<Rightarrow> string"
  ticks :: nat
  entropy :: "nat \<Rightarrow> bytes"
  draws :: nat
  log :: "event list"

type_synonym 'a prog = "world \<Rightarrow> (error + 'a) \<times> world"

definition bind :: "'a prog \<Rightarrow> ('a \<Rightarrow> 'b prog) \<Rightarrow> 'b prog" where
  "bind m f w = (case m w of (Inl e, w') \<Rightarrow> (Inl e, w') | (Inr x, w') \<Rightarrow> f x w')"

definition andthen :: "'a prog \<Rightarrow> 'b prog \<Rightarrow> 'b prog" where
  "andthen m n = bind m (\<lambda>_. n)"

definition return :: "'a \<Rightarrow> 'a prog" where
  "return x w = (Inr x, w)"

text \<open>\<^verbatim>\<open>engine.begin()\<close> and \<^verbatim>\<open>engine.connect()\<close>: the next transaction, which the
  store may refuse.\<close>

definition begin_txn :: "unit prog" where
  "begin_txn w =
     (if faults w (txn w) then Inl OperationalError else Inr (), w\<lparr>txn := txn w + 1\<rparr>)"

subsection \<open>auth.py\<close>

definition os_urandom :: "bytes prog" where
  "os_urandom w = (Inr (entropy w (draws w)), w\<lparr>draws := draws w + 1\<rparr>)"

definition hash_password :: "kdf \<Rightarrow> string \<Rightarrow> (string \<times> string) prog" where
  "hash_password pbkdf2_hmac password =
     bind os_urandom (\<lambda>salt.
       let hash_bytes = pbkdf2_hmac ''sha256'' (encode password) salt 100000;
           salt_hex = hex salt;
           hash_hex = hex hash_bytes
       in return (salt_hex, hash_hex))"

definition verify_password :: "kdf \<Rightarrow> string \<Rightarrow> string \<Rightarrow> string \<Rightarrow> error + bool" where
  "verify_password pbkdf2_hmac password salt_hex stored_hash_hex =
     (case fromhex salt_hex of
        Inl e \<Rightarrow> Inl e
      | Inr salt \<Rightarrow>
          let new_hash_bytes = pbkdf2_hmac ''sha256'' (encode password) salt 100000;
              new_hash_hex = hex new_hash_bytes
          in Inr (new_hash_hex = stored_hash_hex))"

subsection \<open>database.py\<close>

text \<open>\<^verbatim>\<open>CREATE TABLE IF NOT EXISTS\<close>, twice in one transaction: the tables of the
  state are there already, so only the transaction is left.\<close>

definition init_db :: "unit prog" where
  "init_db = begin_txn"

text \<open>\<^verbatim>\<open>username TEXT PRIMARY KEY\<close>: the insert raises \<^verbatim>\<open>IntegrityError\<close> when a
  row with this username is there, and the handler of that exception returns
  \<^verbatim>\<open>False\<close>. Any other failure of the store is not caught.\<close>

definition insert_user :: "string \<Rightarrow> string \<Rightarrow> string \<Rightarrow> unit prog" where
  "insert_user uname salt_hex hash_hex =
     bind begin_txn (\<lambda>_ w.
       if uname \<in> set (map fst (users w)) then (Inl IntegrityError, w)
       else (Inr (), w\<lparr>users := users w @ [(uname, salt_hex, hash_hex)]\<rparr>))"

definition create_user :: "kdf \<Rightarrow> string \<Rightarrow> string \<Rightarrow> bool prog" where
  "create_user pbkdf2_hmac uname password =
     bind (hash_password pbkdf2_hmac password) (\<lambda>(salt_hex, hash_hex) w.
       case insert_user uname salt_hex hash_hex w of
         (Inr _, w') \<Rightarrow> (Inr True, w')
       | (Inl IntegrityError, w') \<Rightarrow> (Inr False, w')
       | (Inl e, w') \<Rightarrow> (Inl e, w'))"

definition get_user_credentials :: "string \<Rightarrow> (string \<times> string) option prog" where
  "get_user_credentials uname =
     bind begin_txn (\<lambda>_ w.
       (Inr (case find (\<lambda>row. fst row = uname) (users w) of
               None \<Rightarrow> None
             | Some row \<Rightarrow> Some (fst (snd row), snd (snd row))), w))"

definition authenticate_user :: "kdf \<Rightarrow> string \<Rightarrow> string \<Rightarrow> bool prog" where
  "authenticate_user pbkdf2_hmac uname password =
     bind (get_user_credentials uname) (\<lambda>creds w.
       case creds of
         None \<Rightarrow> (Inr False, w)
       | Some (salt_hex, stored_hash_hex) \<Rightarrow>
           (verify_password pbkdf2_hmac password salt_hex stored_hash_hex, w))"

definition datetime_now :: "string prog" where
  "datetime_now w = (Inr (clock w (ticks w)), w\<lparr>ticks := ticks w + 1\<rparr>)"

definition save_message :: "string \<Rightarrow> string \<Rightarrow> unit prog" where
  "save_message uname content =
     bind (\<lambda>w. (Inr (), w\<lparr>log := log w @ [Save_message uname content]\<rparr>)) (\<lambda>_.
     bind datetime_now (\<lambda>created_at.
     bind begin_txn (\<lambda>_ w.
       (Inr (), w\<lparr>seq := seq w + 1,
                  messages := messages w @ [(seq w + 1, uname, content, created_at)]\<rparr>))))"

text \<open>\<^verbatim>\<open>ORDER BY message_id DESC LIMIT :limit\<close>. The parameter is bound as an
  SQLite \<^verbatim>\<open>INTEGER\<close> of 64 bits: a Python integer outside that range makes
  \<^verbatim>\<open>execute\<close> raise \<^verbatim>\<open>OverflowError\<close>. Within the range, SQLite takes a negative
  limit as no limit. The rows come newest first and are reversed.\<close>

definition sql_limit :: "int \<Rightarrow> 'a list \<Rightarrow> error + 'a list" where
  "sql_limit n rows =
     (if n < - (2 ^ 63) \<or> 2 ^ 63 \<le> n then Inl OverflowError
      else if n < 0 then Inr rows
      else Inr (take (nat n) rows))"

definition get_recent_messages :: "int \<Rightarrow> (string \<times> string \<times> string) list prog" where
  "get_recent_messages limit =
     bind begin_txn (\<lambda>_ w.
       case sql_limit limit (rev (sort_key fst (messages w))) of
         Inl e \<Rightarrow> (Inl e, w)
       | Inr rows \<Rightarrow>
           let rows = rev rows
           in (Inr (map (\<lambda>row. (fst (snd row), fst (snd (snd row)), snd (snd (snd row)))) rows), w))"

subsection \<open>server.py: sending and broadcasting\<close>

text \<open>\<^verbatim>\<open>conn.sendall(data)\<close>: a socket without its descriptor raises at once; a
  socket that breaks after \<open>b\<close> more bytes hands over what still fits and raises.\<close>

definition sendall :: "nat \<Rightarrow> bytes \<Rightarrow> unit prog" where
  "sendall k data w =
     (let s = socks w k in
      if released s then (Inl OSError, w)
      else case budget s of
        None \<Rightarrow> (Inr (), w\<lparr>socks := (socks w)(k := s\<lparr>outgoing := outgoing s @ data\<rparr>)\<rparr>)
      | Some b \<Rightarrow>
          if length data \<le> b
          then (Inr (), w\<lparr>socks := (socks w)(k := s\<lparr>outgoing := outgoing s @ data,
                                                      budget := Some (b - length data)\<rparr>)\<rparr>)
          else (Inl OSError, w\<lparr>socks := (socks w)(k := s\<lparr>outgoing := outgoing s @ take b data,
                                                           budget := Some 0\<rparr>)\<rparr>))"

definition send_line :: "nat \<Rightarrow> string \<Rightarrow> unit prog" where
  "send_line k txt =
     bind (\<lambda>w. (Inr (), w\<lparr>log := log w @ [Send_line k txt]\<rparr>)) (\<lambda>_.
       let data = encode (txt @ [CHR 0x0A]) in sendall k data)"

text \<open>The loop of \<^verbatim>\<open>broadcast_message\<close> over the copied list: \<^verbatim>\<open>OSError\<close> is
  caught and the loop goes on.\<close>

fun fan_out :: "client list \<Rightarrow> string \<Rightarrow> unit prog" where
  "fan_out [] line w = (Inr (), w)"
| "fan_out (client # current_clients) line w =
     (case send_line (conn client) line w of
        (Inr _, w') \<Rightarrow> fan_out current_clients line w'
      | (Inl OSError, w') \<Rightarrow> fan_out current_clients line w'
      | (Inl e, w') \<Rightarrow> (Inl e, w'))"

definition broadcast_message :: "string \<Rightarrow> string \<Rightarrow> unit prog" where
  "broadcast_message sender_username content =
     bind (save_message sender_username content) (\<lambda>_ w.
       let line = ''['' @ sender_username @ ''] '' @ content;
           current_clients = clients w
       in fan_out current_clients line w)"

subsection \<open>server.py: the handler of one connection\<close>

text \<open>The lines the peer sends, as \<^verbatim>\<open>readline\<close> returns them (an entry \<open>Inl e\<close> is a
  read that raises \<open>e\<close>); at the end of the stream \<^verbatim>\<open>readline\<close> returns the empty
  string.\<close>

type_synonym input = "(error + string) list"

definition readline :: "input \<Rightarrow> (error + string) \<times> input" where
  "readline file_obj = (case file_obj of [] \<Rightarrow> (Inr [], []) | r # rest \<Rightarrow> (r, rest))"

text \<open>\<^verbatim>\<open>str.strip()\<close> removes white space at both ends. The white space of Python
  is the code points 9 to 13 and 28 to 32, then U+0085 and U+00A0, which are two bytes
  in UTF-8 (\<open>C2 85\<close>, \<open>C2 A0\<close>), then U+1680 (\<open>E1 9A 80\<close>), U+2000 to U+200A
  (\<open>E2 80 80\<close> to \<open>E2 80 8A\<close>), U+2028, U+2029 and U+202F (\<open>E2 80 A8\<close>, \<open>E2 80 A9\<close>,
  \<open>E2 80 AF\<close>), U+205F (\<open>E2 81 9F\<close>) and U+3000 (\<open>E3 80 80\<close>), which are three.\<close>

definition py_space :: "char \<Rightarrow> bool" where
  "py_space c = ((of_char c :: nat) \<in> {9, 10, 11, 12, 13, 28, 29, 30, 31, 32})"

definition py_space2 :: "char \<Rightarrow> char \<Rightarrow> bool" where
  "py_space2 a b = ((of_char a :: nat) = 0xC2 \<and> (of_char b :: nat) \<in> {0x85, 0xA0})"

definition py_space3 :: "char \<Rightarrow> char \<Rightarrow> char \<Rightarrow> bool" where
  "py_space3 a b c =
     (let x = (of_char a :: nat); y = (of_char b :: nat); z = (of_char c :: nat) in
      x = 0xE1 \<and> y = 0x9A \<and> z = 0x80 \<or>
      x = 0xE2 \<and> y = 0x80 \<and> (0x80 \<le> z \<and> z \<le> 0x8A \<or> z \<in> {0xA8, 0xA9, 0xAF}) \<or>
      x = 0xE2 \<and> y = 0x81 \<and> z = 0x9F \<or>
      x = 0xE3 \<and> y = 0x80 \<and> z = 0x80)"

fun lstrip :: "string \<Rightarrow> string" where
  "lstrip (a # b # c # s) =
     (if py_space a then lstrip (b # c # s)
      else if py_space2 a b then lstrip (c # s)
      else if py_space3 a b c then lstrip s
      else a # b # c # s)"
| "lstrip [a, b] = (if py_space a then lstrip [b] else if py_space2 a b then [] else [a, b])"
| "lstrip [a] = (if py_space a then [] else [a])"
| "lstrip [] = []"

text \<open>The same from the other end, on the reversed string.\<close>

fun rstrip_rev :: "string \<Rightarrow> string" where
  "rstrip_rev (c # b # a # s) =
     (if py_space c then rstrip_rev (b # a # s)
      else if py_space2 b c then rstrip_rev (a # s)
      else if py_space3 a b c then rstrip_rev s
      else c # b # a # s)"
| "rstrip_rev [b, a] = (if py_space b then rstrip_rev [a] else if py_space2 a b then [] else [b, a])"
| "rstrip_rev [a] = (if py_space a then [] else [a])"
| "rstrip_rev [] = []"

definition strip :: "string \<Rightarrow> string" where
  "strip s = rev (rstrip_rev (rev (lstrip s)))"

text \<open>\<^verbatim>\<open>str.lower()\<close>: the letters \<open>A\<close> to \<open>Z\<close> get their lower case. The bytes of a
  character beyond ASCII are left as they are: the result is only compared with
  \<open>register\<close> and \<open>login\<close>, and \<^verbatim>\<open>str.lower()\<close> turns no string with such a
  character into one of these two.\<close>

definition lower :: "string \<Rightarrow> string" where
  "lower s = map (\<lambda>c. if 65 \<le> (of_char c :: nat) \<and> (of_char c :: nat) \<le> 90
                       then char_of (of_char c + 32 :: nat) else c) s"

text \<open>How the \<^verbatim>\<open>try\<close> block is left: by a \<^verbatim>\<open>return\<close>, by running to its end, or
  by an exception (which \<^verbatim>\<open>except Exception\<close> only prints).\<close>

datatype exit = Returned | Finished | Raised error

text \<open>Run an action inside the \<^verbatim>\<open>try\<close> block: an exception leaves the block.\<close>

definition attempt :: "(error \<Rightarrow> 'r) \<Rightarrow> 'a prog \<Rightarrow> ('a \<Rightarrow> world \<Rightarrow> 'r \<times> world) \<Rightarrow> world \<Rightarrow> 'r \<times> world" where
  "attempt h m f w = (case m w of (Inl e, w') \<Rightarrow> (h e, w') | (Inr x, w') \<Rightarrow> f x w')"

text \<open>One round of \<^verbatim>\<open>while username is None\<close>: the loop goes on with the rest of the
  input, or \<^verbatim>\<open>username\<close> is set, or the \<^verbatim>\<open>try\<close> block is left with \<^verbatim>\<open>username\<close>
  as it is then.\<close>

datatype auth = Again input | Authenticated string input | Left exit "string option"

definition auth_step :: "kdf \<Rightarrow> nat \<Rightarrow> input \<Rightarrow> world \<Rightarrow> auth \<times> world" where
  "auth_step pbkdf2_hmac k file_obj =
     (let out = (\<lambda>e. Left (Raised e) None) in
      case readline file_obj of (r, file_obj1) \<Rightarrow>
      attempt out (Pair r) (\<lambda>command.
        if command = [] then Pair (Left Returned None)
        else let command = lower (strip command) in
        if command = ''register'' then
          attempt out (send_line k ''Choose a username:'') (\<lambda>_.
          case readline file_obj1 of (r, file_obj2) \<Rightarrow>
          attempt out (Pair r) (\<lambda>uname.
            if uname = [] then Pair (Left Returned None)
            else let uname = strip uname in
            attempt out (send_line k ''Choose a password:'') (\<lambda>_.
            case readline file_obj2 of (r, file_obj3) \<Rightarrow>
            attempt out (Pair r) (\<lambda>pw.
              if pw = [] then Pair (Left Returned None)
              else let pw = strip pw in
              if uname = [] \<or> pw = [] then
                attempt out
                  (send_line k ''Username and password cannot be empty. Try again.'')
                  (\<lambda>_. Pair (Again file_obj3))
              else
                attempt out (create_user pbkdf2_hmac uname pw) (\<lambda>created.
                  if created then
                    attempt out
                      (send_line k ''Account created successfully! Type 'login' to sign in.'')
                      (\<lambda>_. Pair (Again file_obj3))
                  else
                    attempt out
                      (send_line k ''Username already exists. Try another username.'')
                      (\<lambda>_. Pair (Again file_obj3)))))))
        else if command = ''login'' then
          attempt out (send_line k ''Username:'') (\<lambda>_.
          case readline file_obj1 of (r, file_obj2) \<Rightarrow>
          attempt out (Pair r) (\<lambda>uname.
            if uname = [] then Pair (Left Returned None)
            else let uname = strip uname in
            attempt out (send_line k ''Password:'') (\<lambda>_.
            case readline file_obj2 of (r, file_obj3) \<Rightarrow>
            attempt out (Pair r) (\<lambda>pw.
              if pw = [] then Pair (Left Returned None)
              else let pw = strip pw in
              attempt out (authenticate_user pbkdf2_hmac uname pw) (\<lambda>ok.
                if ok then
                  attempt (\<lambda>e. Left (Raised e) (Some uname))
                    (send_line k (''Login successful. Welcome, '' @ uname @ ''!''))
                    (\<lambda>_. Pair (Authenticated uname file_obj3))
                else
                  attempt out
                    (send_line k ''Invalid username or password. Try again.'')
                    (\<lambda>_. Pair (Again file_obj3)))))))
        else
          attempt out
            (send_line k ''Please type either 'register' or 'login'.'')
            (\<lambda>_. Pair (Again file_obj1))))"

text \<open>The \<^verbatim>\<open>while username is None\<close> loop.\<close>

lemma auth_step_Again: "auth_step pbkdf2_hmac k file_obj w = (Again rest, w') \<Longrightarrow> length rest < length file_obj"
  by (auto simp: auth_step_def attempt_def readline_def Let_def
           split: list.splits sum.splits prod.splits if_splits)

function auth_loop :: "kdf \<Rightarrow> nat \<Rightarrow> input \<Rightarrow> world \<Rightarrow> auth \<times> world" where
  "auth_loop pbkdf2_hmac k file_obj w =
     (case auth_step pbkdf2_hmac k file_obj w of
        (Again rest, w') \<Rightarrow> auth_loop pbkdf2_hmac k rest w'
      | (other, w') \<Rightarrow> (other, w'))"
  by pat_completeness auto
termination
  by (relation "measure (\<lambda>(pbkdf2_hmac, k, file_obj, w). length file_obj)")
     (auto dest: auth_step_Again [OF sym])

text \<open>After the loop: the entry in \<^verbatim>\<open>clients\<close>, the history, the join notice and
  the two lines of help. Nothing here catches an exception.\<close>

definition append_client :: "nat \<Rightarrow> string \<Rightarrow> unit prog" where
  "append_client k uname w =
     (Inr (), w\<lparr>clients := clients w @ [\<lparr>conn = k, username = uname\<rparr>],
                log := log w @ [Append_client k uname]\<rparr>)"

fun replay :: "nat \<Rightarrow> (string \<times> string \<times> string) list \<Rightarrow> unit prog" where
  "replay k [] = return ()"
| "replay k ((u, content, created_at) # rows) =
     andthen (send_line k (''['' @ created_at @ ''] '' @ u @ '': '' @ content)) (replay k rows)"

definition enter_chat :: "nat \<Rightarrow> string \<Rightarrow> unit prog" where
  "enter_chat k uname =
     andthen (append_client k uname)
    (andthen (send_line k ''--- Recent messages ---'')
    (bind (get_recent_messages 20) (\<lambda>rows.
     andthen (replay k rows)
    (andthen (send_line k ''--- End of history ---'')
    (andthen (broadcast_message ''SYSTEM'' (uname @ '' has joined the chat.''))
    (andthen (send_line k ''You are now in the chatroom. Type messages and press Enter.'')
             (send_line k ''Type '/quit' to exit.'')))))))"

text \<open>One round of \<^verbatim>\<open>while True\<close>: go on with the rest of the input, or leave.\<close>

datatype chat = Chat_again input | Chat_left exit

definition chat_step :: "nat \<Rightarrow> string \<Rightarrow> input \<Rightarrow> world \<Rightarrow> chat \<times> world" where
  "chat_step k uname file_obj =
     (let out = (\<lambda>e. Chat_left (Raised e)) in
      case readline file_obj of (r, file_obj1) \<Rightarrow>
      attempt out (Pair r) (\<lambda>line.
        if line = [] then Pair (Chat_left Finished)
        else let message = strip line in
        if message = [] then Pair (Chat_again file_obj1)
        else if message = ''/quit'' then
          attempt out (send_line k ''Goodbye!'') (\<lambda>_. Pair (Chat_left Finished))
        else
          attempt out (broadcast_message uname message) (\<lambda>_. Pair (Chat_again file_obj1))))"

lemma chat_step_Chat_again: "chat_step k uname file_obj w = (Chat_again rest, w') \<Longrightarrow> length rest < length file_obj"
  by (auto simp: chat_step_def attempt_def readline_def Let_def
           split: list.splits sum.splits prod.splits if_splits)

function chat_loop :: "nat \<Rightarrow> string \<Rightarrow> input \<Rightarrow> world \<Rightarrow> exit \<times> world" where
  "chat_loop k uname file_obj w =
     (case chat_step k uname file_obj w of
        (Chat_again rest, w') \<Rightarrow> chat_loop k uname rest w'
      | (Chat_left x, w') \<Rightarrow> (x, w'))"
  by pat_completeness auto
termination
  by (relation "measure (\<lambda>(k, uname, file_obj, w). length file_obj)")
     (auto dest: chat_step_Chat_again [OF sym])

declare auth_loop.simps [simp del] chat_loop.simps [simp del]

text \<open>The \<^verbatim>\<open>try\<close> block with its \<^verbatim>\<open>except Exception\<close>: how it was left, and
  \<^verbatim>\<open>username\<close> at that moment.\<close>

definition try_block :: "kdf \<Rightarrow> nat \<Rightarrow> input \<Rightarrow> world \<Rightarrow> (exit \<times> string option) \<times> world" where
  "try_block pbkdf2_hmac k file_obj =
     (let out = (\<lambda>e. (Raised e, None)) in
      attempt out (send_line k ''Welcome to the chat server!'') (\<lambda>_.
      attempt out
        (send_line k ''Type 'register' to create an account or 'login' to sign in:'') (\<lambda>_ w.
        case auth_loop pbkdf2_hmac k file_obj w of
          (Left x un, w') \<Rightarrow> ((x, un), w')
        | (Again rest, w') \<Rightarrow> ((Returned, None), w')
        | (Authenticated uname rest, w') \<Rightarrow>
            attempt (\<lambda>e. (Raised e, Some uname)) (enter_chat k uname) (\<lambda>_ w.
              case chat_loop k uname rest w of (x, w') \<Rightarrow> ((x, Some uname), w')) w')))"

text \<open>The \<^verbatim>\<open>finally\<close> block. An exception of the leave notice is not caught:
  \<^verbatim>\<open>close\<close> is then not called.

  \<^verbatim>\<open>socket.close()\<close> marks the socket as closed and gives the descriptor back only if
  no file object made by \<^verbatim>\<open>makefile\<close> is alive; otherwise that happens when the last
  of them is closed (\<^verbatim>\<open>_decref_socketios\<close>). Until then \<^verbatim>\<open>sendall\<close> still works.\<close>

definition remove_client :: "nat \<Rightarrow> unit prog" where
  "remove_client k w =
     (Inr (), w\<lparr>clients := filter (\<lambda>c. conn c \<noteq> k) (clients w),
                log := log w @ [Remove_client k]\<rparr>)"

definition socket_close :: "socket \<Rightarrow> socket" where
  "socket_close s = (if io_refs s = 0 then s\<lparr>closed := True, released := True\<rparr>
                     else s\<lparr>closed := True\<rparr>)"

definition decref_socketios :: "socket \<Rightarrow> socket" where
  "decref_socketios s =
     (let s = (if 0 < io_refs s then s\<lparr>io_refs := io_refs s - 1\<rparr> else s)
      in if closed s then socket_close s else s)"

definition close :: "nat \<Rightarrow> unit prog" where
  "close k w =
     (Inr (), w\<lparr>socks := (socks w)(k := socket_close (socks w k)),
                log := log w @ [Close k]\<rparr>)"

definition finally_block :: "nat \<Rightarrow> string option \<Rightarrow> unit prog" where
  "finally_block k un =
     andthen
       (case un of
          None \<Rightarrow> return ()
        | Some uname \<Rightarrow>
            andthen (remove_client k)
                    (broadcast_message ''SYSTEM'' (uname @ '' has left the chat.'')))
       (close k)"

text \<open>\<^verbatim>\<open>file_obj = conn.makefile("r", encoding="utf-8")\<close>: one more file object on
  the socket (what is read from it is the \<open>input\<close>). It is a local variable of the
  handler and nothing else refers to it, so it is closed when the handler is left, by
  its return or by the exception of the \<^verbatim>\<open>finally\<close> block.\<close>

definition makefile :: "nat \<Rightarrow> world \<Rightarrow> world" where
  "makefile k w = w\<lparr>socks := (socks w)(k := (socks w k)\<lparr>io_refs := io_refs (socks w k) + 1\<rparr>)\<rparr>"

definition drop_file :: "nat \<Rightarrow> world \<Rightarrow> world" where
  "drop_file k w = w\<lparr>socks := (socks w)(k := decref_socketios (socks w k))\<rparr>"

definition handle_client :: "kdf \<Rightarrow> nat \<Rightarrow> input \<Rightarrow> unit prog" where
  "handle_client pbkdf2_hmac k file_obj w =
     (case try_block pbkdf2_hmac k file_obj (makefile k w) of
        ((x, un), w') \<Rightarrow>
          (case finally_block k un w' of (r, w'') \<Rightarrow> (r, drop_file k w'')))"

subsection \<open>What a socket does with the bytes it is given\<close>

text \<open>\<open>accepts s data\<close>: \<^verbatim>\<open>sendall(data)\<close> on \<open>s\<close> returns; \<open>sent s data\<close>: the socket
  after the call; \<open>wire txt\<close>: the bytes of one line; \<open>deliver\<close>: the sockets after one
  \<^verbatim>\<open>sendall\<close> for each entry of a list of clients.\<close>

definition accepts :: "socket \<Rightarrow> bytes \<Rightarrow> bool" where
  "accepts s data \<longleftrightarrow> \<not> released s \<and> (case budget s of None \<Rightarrow> True | Some b \<Rightarrow> length data \<le> b)"

definition sent :: "socket \<Rightarrow> bytes \<Rightarrow> socket" where
  "sent s data =
     (if released s then s
      else case budget s of
        None \<Rightarrow> s\<lparr>outgoing := outgoing s @ data\<rparr>
      | Some b \<Rightarrow>
          if length data \<le> b
          then s\<lparr>outgoing := outgoing s @ data, budget := Some (b - length data)\<rparr>
          else s\<lparr>outgoing := outgoing s @ take b data, budget := Some 0\<rparr>)"

definition wire :: "string \<Rightarrow> bytes" where
  "wire txt = encode (txt @ [CHR 0x0A])"

fun deliver :: "client list \<Rightarrow> bytes \<Rightarrow> (nat \<Rightarrow> socket) \<Rightarrow> (nat \<Rightarrow> socket)" where
  "deliver [] data ss = ss"
| "deliver (c # cs) data ss = deliver cs data (ss(conn c := sent (ss (conn c)) data))"

text \<open>A socket that takes whatever it is given; the line of the history for a row
  that \<^verbatim>\<open>get_recent_messages\<close> returns.\<close>

definition healthy :: "socket \<Rightarrow> bool" where
  "healthy s \<longleftrightarrow> budget s = None \<and> \<not> released s"

definition history_line :: "string \<times> string \<times> string \<Rightarrow> string" where
  "history_line row = (case row of (u, content, created_at) \<Rightarrow>
     ''['' @ created_at @ ''] '' @ u @ '': '' @ content)"

subsection \<open>What a run adds to the record of calls\<close>

text \<open>\<open>new_events w w'\<close>: the calls recorded in \<open>w'\<close> after those of \<open>w\<close>;
  \<open>grows P w w'\<close>: the record of \<open>w'\<close> is that of \<open>w\<close> followed by calls that satisfy
  \<open>P\<close>; \<open>quiet k w w'\<close>: from \<open>w\<close> to \<open>w'\<close> nothing happened but \<^verbatim>\<open>send_line\<close> on the
  connection \<open>k\<close> (and, possibly, new accounts).\<close>

definition new_events :: "world \<Rightarrow> world \<Rightarrow> event list" where
  "new_events w w' = drop (length (log w)) (log w')"

fun only_sends :: "nat \<Rightarrow> event \<Rightarrow> bool" where
  "only_sends k (Send_line j txt) = (j = k)"
| "only_sends k _ = False"

fun no_close :: "event \<Rightarrow> bool" where
  "no_close (Close k) = False"
| "no_close _ = True"

text \<open>\<open>chat_event k u\<close>: a call that the session of connection \<open>k\<close> and name \<open>u\<close> may
  make before its \<^verbatim>\<open>finally\<close> block: any \<^verbatim>\<open>send_line\<close> or \<^verbatim>\<open>save_message\<close>, and its
  own entry in the registry.\<close>

fun chat_event :: "nat \<Rightarrow> string \<Rightarrow> event \<Rightarrow> bool" where
  "chat_event k u (Append_client j v) = (j = k \<and> v = u)"
| "chat_event k u (Remove_client j) = False"
| "chat_event k u (Close j) = False"
| "chat_event k u _ = True"

definition grows :: "(event \<Rightarrow> bool) \<Rightarrow> world \<Rightarrow> world \<Rightarrow> bool" where
  "grows P w w' \<longleftrightarrow> take (length (log w)) (log w') = log w \<and> list_all P (new_events w w')"

definition quiet :: "nat \<Rightarrow> world \<Rightarrow> world \<Rightarrow> bool" where
  "quiet k w w' \<longleftrightarrow> clients w' = clients w \<and> messages w' = messages w \<and>
     (\<forall>j. j \<noteq> k \<longrightarrow> socks w' j = socks w j) \<and>
     closed (socks w' k) = closed (socks w k) \<and> grows (only_sends k) w w'"

definition pres :: "(world \<Rightarrow> world \<Rightarrow> bool) \<Rightarrow> (world \<Rightarrow> 'a \<times> world) \<Rightarrow> bool" where
  "pres R f \<longleftrightarrow> (\<forall>w. R w (snd (f w)))"

text \<open>The line that tells the peer that its login succeeded; \<open>greeted k es\<close>: among
  the calls \<open>es\<close> there is a \<^verbatim>\<open>send_line\<close> of that line on the connection \<open>k\<close>.\<close>

definition login_line :: "string \<Rightarrow> string" where
  "login_line uname = ''Login successful. Welcome, '' @ uname @ ''!''"

definition greeted :: "nat \<Rightarrow> event list \<Rightarrow> bool" where
  "greeted k es \<longleftrightarrow> (\<exists>u. Send_line k (login_line u) \<in> set es)"

text \<open>\<open>same_registry w w'\<close>: the list \<^verbatim>\<open>clients\<close> is the same in both.\<close>

definition same_registry :: "world \<Rightarrow> world \<Rightarrow> bool" where
  "same_registry w w' \<longleftrightarrow> clients w' = clients w"

subsection \<open>Sequences of calls of the store\<close>

text \<open>A client of \<^verbatim>\<open>database.py\<close> makes calls one after the other; \<open>run\<close> makes
  them in turn and collects what each call returned or raised.\<close>

datatype call =
    Create string string
  | Authenticate string string
  | Save string string
  | Recent int

datatype reply = Flag bool | Done | Rows "(string \<times> string \<times> string) list"

fun perform :: "kdf \<Rightarrow> call \<Rightarrow> world \<Rightarrow> (error + reply) \<times> world" where
  "perform pbkdf2_hmac (Create uname password) w =
     (case create_user pbkdf2_hmac uname password w of (r, w') \<Rightarrow> (map_sum id Flag r, w'))"
| "perform pbkdf2_hmac (Authenticate uname password) w =
     (case authenticate_user pbkdf2_hmac uname password w of (r, w') \<Rightarrow> (map_sum id Flag r, w'))"
| "perform pbkdf2_hmac (Save uname content) w =
     (case save_message uname content w of (r, w') \<Rightarrow> (map_sum id (\<lambda>_. Done) r, w'))"
| "perform pbkdf2_hmac (Recent limit) w =
     (case get_recent_messages limit w of (r, w') \<Rightarrow> (map_sum id Rows r, w'))"

fun run :: "kdf \<Rightarrow> call list \<Rightarrow> world \<Rightarrow> (error + reply) list \<times> world" where
  "run pbkdf2_hmac [] w = ([], w)"
| "run pbkdf2_hmac (c # calls) w =
     (case perform pbkdf2_hmac c w of (a, w') \<Rightarrow>
      case run pbkdf2_hmac calls w' of (as, w'') \<Rightarrow> (a # as, w''))"

text \<open>A call of \<^verbatim>\<open>create_user\<close> for \<open>uname\<close> that returned \<^verbatim>\<open>True\<close>; a call of
  \<^verbatim>\<open>save_message\<close> that returned.\<close>

fun created :: "string \<Rightarrow> call \<times> (error + reply) \<Rightarrow> bool" where
  "created uname (Create u password, Inr (Flag True)) = (u = uname)"
| "created uname _ = False"

fun created_with :: "string \<Rightarrow> string \<Rightarrow> call \<times> (error + reply) \<Rightarrow> bool" where
  "created_with uname password (Create u p, Inr (Flag True)) = (u = uname \<and> p = password)"
| "created_with uname password _ = False"

fun saved :: "(call \<times> (error + reply)) list \<Rightarrow> (string \<times> string) list" where
  "saved [] = []"
| "saved ((Save uname content, Inr Done) # rest) = (uname, content) # saved rest"
| "saved (_ # rest) = saved rest"

text \<open>What \<^verbatim>\<open>LIMIT\<close> leaves of a table read newest first, put back oldest first.\<close>

definition newest :: "int \<Rightarrow> 'a list \<Rightarrow> 'a list" where
  "newest n rows = (if n < 0 then rows else drop (length rows - nat n) rows)"

text \<open>A stand-in for the key derivation in examples: it keeps the password.\<close>

definition toy_kdf :: kdf where
  "toy_kdf hash_name password salt iterations = password @ salt"

text \<open>What the key derivation of the library does with the password. PBKDF2 runs HMAC
  with the password as the key, and HMAC (RFC 2104) first brings its key to the length
  of a block of the hash function, 64 bytes for SHA-256: a longer key is replaced by
  its digest, and zero bytes are put after the key. The rest of the computation reads
  this block and never the password. The digest and the rest of the computation are
  parameters.\<close>

definition hmac_key :: "(bytes \<Rightarrow> bytes) \<Rightarrow> bytes \<Rightarrow> bytes" where
  "hmac_key digest key =
     (let key = (if 64 < length key then digest key else key)
      in key @ replicate (64 - length key) 0)"

definition pbkdf2_with :: "(bytes \<Rightarrow> bytes) \<Rightarrow> (bytes \<Rightarrow> bytes \<Rightarrow> nat \<Rightarrow> bytes) \<Rightarrow> kdf" where
  "pbkdf2_with digest rounds hash_name password salt iterations =
     rounds (hmac_key digest password) salt iterations"

text \<open>The server as \<^verbatim>\<open>main\<close> starts it: empty tables, nobody registered, every
  socket open and healthy, a store that answers and a clock that stands still.\<close>

definition fresh_socket :: socket where
  "fresh_socket = \<lparr>outgoing = [], budget = None, closed = False, io_refs = 0, released = False\<rparr>"

definition boot :: world where
  "boot = \<lparr>users = [], messages = [], seq = 0, clients = [],
            socks = (\<lambda>_. fresh_socket), faults = (\<lambda>_. False), txn = 0,
            clock = (\<lambda>_. ''2025-01-01 12:00:00''), ticks = 0,
            entropy = (\<lambda>_. []), draws = 0, log = []\<rparr>"

text \<open>The row that \<^verbatim>\<open>create_user\<close> inserts in state \<open>w\<close>.\<close>

definition stored :: "kdf \<Rightarrow> string \<Rightarrow> string \<Rightarrow> world \<Rightarrow> string \<times> string \<times> string" where
  "stored pbkdf2_hmac uname password w =
     (uname, hex (entropy w (draws w)),
      hex (pbkdf2_hmac ''sha256'' (encode password) (entropy w (draws w)) 100000))"

text \<open>Example inputs.\<close>

definition two_registrations :: "call list" where
  "two_registrations = [Create ''alice'' ''secret'', Create ''alice'' ''other'']"

definition one_registration :: "call list" where
  "one_registration = [Create ''alice'' ''secret'']"

definition two_saves :: "call list" where
  "two_saves = [Save ''alice'' ''one'', Save ''bob'' ''two'']"

text \<open>A wall clock that is set back by an hour after its first reading, as local time
  is at the end of daylight saving time.\<close>

definition set_back :: "nat \<Rightarrow> string" where
  "set_back n = (if n = 0 then ''2025-11-02 01:59:59'' else ''2025-11-02 01:00:00'')"

text \<open>Two sessions registered, on the connections 1 and 2; the same with a store
  that refuses every transaction; the same with a first connection that breaks after
  three more bytes.\<close>

definition room :: world where
  "room = boot\<lparr>clients := [\<lparr>conn = 1, username = ''alice''\<rparr>, \<lparr>conn = 2, username = ''bob''\<rparr>]\<rparr>"

definition outage :: "nat \<Rightarrow> bool" where
  "outage n = True"

definition store_down :: world where
  "store_down = room\<lparr>faults := outage\<rparr>"

definition broken_room :: world where
  "broken_room = room\<lparr>socks := (socks room)(1 := fresh_socket\<lparr>budget := Some 3\<rparr>)\<rparr>"

text \<open>A store with the account of alice; a peer that hangs up while it is asked for
  the password; a peer that logs in, says hello and quits.\<close>

definition accounts :: world where
  "accounts = snd (run toy_kdf one_registration boot)"

definition hangs_up :: input where
  "hangs_up = [Inr ''login\<newline>'', Inr ''alice\<newline>'']"

definition visit :: input where
  "visit = [Inr ''Login\<newline>'', Inr ''alice\<newline>'', Inr ''secret\<newline>'',
            Inr ''hello\<newline>'', Inr ''/quit\<newline>'']"

text \<open>The same store with bob registered on connection 2; then with a connection 1
  that breaks after the 108 bytes of the four lines that come before a login is
  answered; then with a store that refuses the fifth transaction, which is the one of
  the leave notice when a peer logs in and hangs up. A peer that logs in and hangs
  up.\<close>

definition lobby :: world where
  "lobby = accounts\<lparr>clients := [\<lparr>conn = 2, username = ''bob''\<rparr>]\<rparr>"

definition lobby_lost_peer :: world where
  "lobby_lost_peer = lobby\<lparr>socks := (socks lobby)(1 := fresh_socket\<lparr>budget := Some 108\<rparr>)\<rparr>"

definition lobby_store_fails :: world where
  "lobby_store_fails = lobby\<lparr>faults := (\<lambda>n. n = 4)\<rparr>"

definition login_only :: input where
  "login_only = [Inr ''login\<newline>'', Inr ''alice\<newline>'', Inr ''secret\<newline>'']"

text \<open>A peer that logs in as alice with the password \<open>secret\<close> followed by a zero
  byte, and hangs up.\<close>

definition nul_login :: input where
  "nul_login = [Inr ''login\<newline>'', Inr ''alice\<newline>'', Inr (''secret'' @ [CHR 0x00, CHR 0x0A])]"

text \<open>The server after the visit of alice on connection 1.\<close>

definition after_visit :: world where
  "after_visit = snd (handle_client toy_kdf 1 visit accounts)"

text \<open>The store on the night the clock is set back: two messages saved, the second
  with the earlier time of day.\<close>

definition dst_night :: world where
  "dst_night = snd (run toy_kdf two_saves (boot\<lparr>clock := set_back\<rparr>))"

text \<open>Invariants of the \<^verbatim>\<open>messages\<close> table: the ids grow along the table and none is
  beyond \<open>seq\<close>; every timestamp is an earlier reading of the clock and the timestamps
  are in order.\<close>

definition wf_ids :: "world \<Rightarrow> bool" where
  "wf_ids w \<longleftrightarrow> sorted_wrt (<) (map fst (messages w)) \<and> (\<forall>i \<in> fst ` set (messages w). i \<le> seq w)"

definition stamped :: "world \<Rightarrow> bool" where
  "stamped w \<longleftrightarrow> sorted (map (\<lambda>row. snd (snd (snd row))) (messages w)) \<and>
     (\<forall>row \<in> set (messages w). \<exists>j<ticks w. snd (snd (snd row)) = clock w j)"

definition payload :: "nat \<times> string \<times> string \<times> string \<Rightarrow> string \<times> string" where
  "payload row = (fst (snd row), fst (snd (snd row)))"

section \<open>The registry\<close>

text \<open>
  C8 (as amended). Adding a session to the registry appends one entry whatever the
  list holds: the number of entries of that connection grows by exactly one, so it is
  one when the connection was absent, and the other entries stay as they were.
\<close>

theorem append_client_appends:
  "clients (snd (append_client k uname w)) = clients w @ [\<lparr>conn = k, username = uname\<rparr>] \<and>
   length (filter (\<lambda>c. conn c = k) (clients (snd (append_client k uname w)))) =
     Suc (length (filter (\<lambda>c. conn c = k) (clients w)))"
  by (simp add: append_client_def)

text \<open>
  C8 (as stated) fails: with the session of connection 1 already registered, adding it
  again changes the registry.
\<close>

theorem append_client_not_idempotent:
  "clients (snd (append_client 1 ''alice''
      (boot\<lparr>clients := [\<lparr>conn = 1, username = ''alice''\<rparr>]\<rparr>))) \<noteq> [\<lparr>conn = 1, username = ''alice''\<rparr>]"
  by (simp add: append_client_def)

section \<open>The store\<close>

subsection \<open>What each call does\<close>

lemma create_user_eq:
  "create_user kdf u p w =
     (if faults w (txn w) then Inl OperationalError else Inr (u \<notin> fst ` set (users w)),
      w\<lparr>draws := draws w + 1, txn := txn w + 1,
        users := (if \<not> faults w (txn w) \<and> u \<notin> fst ` set (users w)
                  then users w @ [stored kdf u p w] else users w)\<rparr>)"
  by (simp add: create_user_def hash_password_def os_urandom_def insert_user_def begin_txn_def
      bind_def return_def Let_def stored_def)

lemma authenticate_user_eq:
  "authenticate_user kdf u p w =
     (if faults w (txn w) then Inl OperationalError
      else case find (\<lambda>row. fst row = u) (users w) of
             None \<Rightarrow> Inr False
           | Some row \<Rightarrow> verify_password kdf p (fst (snd row)) (snd (snd row)),
      w\<lparr>txn := txn w + 1\<rparr>)"
  by (simp add: authenticate_user_def get_user_credentials_def begin_txn_def bind_def
      split: option.splits)

lemma save_message_eq:
  "save_message u c w =
     (if faults w (txn w) then Inl OperationalError else Inr (),
      w\<lparr>log := log w @ [Save_message u c], ticks := ticks w + 1, txn := txn w + 1,
        seq := (if faults w (txn w) then seq w else seq w + 1),
        messages := (if faults w (txn w) then messages w
                     else messages w @ [(seq w + 1, u, c, clock w (ticks w))])\<rparr>)"
  by (simp add: save_message_def datetime_now_def begin_txn_def bind_def)

lemma get_recent_messages_eq:
  "get_recent_messages n w =
     (if faults w (txn w) then Inl OperationalError
      else map_sum id (\<lambda>rows. map snd (rev rows)) (sql_limit n (rev (sort_key fst (messages w)))),
      w\<lparr>txn := txn w + 1\<rparr>)"
  by (simp add: get_recent_messages_def begin_txn_def bind_def Let_def split: sum.splits)

lemma created_Flag: "created u (Create a p, Inr (Flag b)) = (b \<and> a = u)"
  by (cases b) auto

lemma run_Cons:
  "run kdf (c # calls) w =
     (fst (perform kdf c w) # fst (run kdf calls (snd (perform kdf c w))),
      snd (run kdf calls (snd (perform kdf c w))))"
  by (simp split: prod.splits)

lemma perform_users_mono: "fst ` set (users w) \<subseteq> fst ` set (users (snd (perform kdf c w)))"
  by (cases c) (auto simp: create_user_eq authenticate_user_eq save_message_eq get_recent_messages_eq)

lemma created_head:
  "created u (c, fst (perform kdf c w)) \<Longrightarrow> u \<in> fst ` set (users (snd (perform kdf c w)))"
  by (cases c) (auto simp: create_user_eq stored_def created_Flag split: if_splits)

lemma created_fresh:
  "created u (c, fst (perform kdf c w)) \<Longrightarrow> u \<notin> fst ` set (users w)"
  by (cases c) (auto simp: create_user_eq stored_def created_Flag split: if_splits)

lemma run_length: "length (fst (run kdf calls w)) = length calls"
  by (induction calls arbitrary: w) (simp_all add: run_Cons del: run.simps(2))

lemma no_create_when_present:
  "u \<in> fst ` set (users w) \<Longrightarrow> filter (created u) (zip calls (fst (run kdf calls w))) = []"
proof (induction calls arbitrary: w)
  case Nil
  then show ?case by simp
next
  case (Cons c calls)
  obtain a w1 where p: "perform kdf c w = (a, w1)" by (cases "perform kdf c w")
  have "\<not> created u (c, a)"
    using created_fresh [of u c kdf w] Cons.prems p by auto
  moreover have "u \<in> fst ` set (users w1)"
    using perform_users_mono [of w kdf c] Cons.prems p by auto
  then have "filter (created u) (zip calls (fst (run kdf calls w1))) = []"
    by (rule Cons.IH)
  ultimately show ?case
    using p by (simp add: run_Cons del: run.simps(2))
qed

lemma created_at_most_once:
  "length (filter (created u) (zip calls (fst (run kdf calls w)))) \<le> 1"
proof (induction calls arbitrary: w)
  case Nil
  then show ?case by simp
next
  case (Cons c calls)
  obtain a w1 where p: "perform kdf c w = (a, w1)" by (cases "perform kdf c w")
  show ?case
  proof (cases "created u (c, a)")
    case True
    then have "u \<in> fst ` set (users w1)"
      using created_head [of u c kdf w] p by simp
    then have "filter (created u) (zip calls (fst (run kdf calls w1))) = []"
      by (rule no_create_when_present)
    then show ?thesis using p True by (simp add: run_Cons del: run.simps(2))
  next
    case False
    then show ?thesis using p Cons.IH [of w1] by (simp add: run_Cons del: run.simps(2))
  qed
qed

lemma filter_two:
  assumes "i < length xs" "j < length xs" "i \<noteq> j" "P (xs ! i)" "P (xs ! j)"
  shows "2 \<le> length (filter P xs)"
proof -
  have "distinct [i, j]" "set [i, j] \<subseteq> {k. k < length xs \<and> P (xs ! k)}"
    using assms by auto
  then have "card (set [i, j]) \<le> card {k. k < length xs \<and> P (xs ! k)}"
    by (intro card_mono) auto
  then show ?thesis
    using assms(3) by (simp add: length_filter_conv_card)
qed

lemma perform_create_answer:
  "fst (perform kdf (Create u p) w) = Inl OperationalError \<or>
   (\<exists>b. fst (perform kdf (Create u p) w) = Inr (Flag b))"
  by (simp add: create_user_eq)

lemma run_nth:
  "j < length calls \<Longrightarrow>
   fst (run kdf calls w) ! j = fst (perform kdf (calls ! j) (snd (run kdf (take j calls) w)))"
proof (induction calls arbitrary: w j)
  case Nil
  then show ?case by simp
next
  case (Cons c calls)
  show ?case
  proof (cases j)
    case 0
    then show ?thesis by (simp add: run_Cons del: run.simps(2))
  next
    case (Suc j')
    then show ?thesis using Cons.prems Cons.IH [of j'] by (simp add: run_Cons del: run.simps(2))
  qed
qed

lemma perform_faults: "faults (snd (perform kdf c w)) = faults w"
  by (cases c)
     (simp_all add: create_user_eq authenticate_user_eq save_message_eq get_recent_messages_eq)

lemma run_faults: "faults (snd (run kdf calls w)) = faults w"
  by (induction calls arbitrary: w) (simp_all add: run_Cons perform_faults del: run.simps(2))

lemma create_answers_when_up:
  assumes "\<forall>n. \<not> faults w n" "j < length calls" "calls ! j = Create u p"
  shows "fst (run kdf calls w) ! j \<noteq> Inl OperationalError"
proof -
  let ?w = "snd (run kdf (take j calls) w)"
  have "fst (run kdf calls w) ! j = fst (perform kdf (Create u p) ?w)"
    using run_nth [OF assms(2), of kdf w] assms(3) by simp
  moreover have "\<not> faults ?w (txn ?w)"
    using assms(1) by (simp add: run_faults)
  ultimately show ?thesis by (simp add: create_user_eq)
qed

text \<open>
  C4. In every sequence of calls of the store, at most one call of \<^verbatim>\<open>create_user\<close>
  returns \<^verbatim>\<open>True\<close> for a username; every other call with that username returns
  \<^verbatim>\<open>False\<close> or, if the store refused its transaction, raises; with a store that
  refuses no transaction every other call returns \<^verbatim>\<open>False\<close>. A single call returns
  \<^verbatim>\<open>False\<close> only if the username is in the table, and, when the store answers,
  returns \<^verbatim>\<open>False\<close> exactly if it is.
\<close>

theorem create_user_unique:
  assumes "run kdf calls w = (as, w')"
  shows "length (filter (created u) (zip calls as)) \<le> 1 \<and>
    (\<forall>i j p. i < length calls \<and> j < length calls \<and> i \<noteq> j \<and>
       created u (calls ! i, as ! i) \<and> calls ! j = Create u p \<longrightarrow>
       as ! j = Inr (Flag False) \<or> as ! j = Inl OperationalError) \<and>
    ((\<forall>n. \<not> faults w n) \<longrightarrow>
       (\<forall>i j p. i < length calls \<and> j < length calls \<and> i \<noteq> j \<and>
          created u (calls ! i, as ! i) \<and> calls ! j = Create u p \<longrightarrow>
          as ! j = Inr (Flag False))) \<and>
    (fst (create_user kdf u p w) = Inr False \<longrightarrow> u \<in> fst ` set (users w)) \<and>
    (\<not> faults w (txn w) \<longrightarrow> fst (create_user kdf u p w) = Inr (u \<notin> fst ` set (users w)))"
proof -
  have as: "as = fst (run kdf calls w)" using assms by simp
  have len: "length as = length calls" by (simp add: as run_length)
  have once: "length (filter (created u) (zip calls as)) \<le> 1"
    unfolding as by (rule created_at_most_once)
  have others: "as ! j = Inr (Flag False) \<or> as ! j = Inl OperationalError"
    if "i < length calls" "j < length calls" "i \<noteq> j"
      "created u (calls ! i, as ! i)" "calls ! j = Create u q" for i j q
  proof -
    have "\<not> created u (calls ! j, as ! j)"
    proof
      assume "created u (calls ! j, as ! j)"
      then have "2 \<le> length (filter (created u) (zip calls as))"
        using that len by (intro filter_two [of i _ j]) auto
      with once show False by simp
    qed
    then have "as ! j \<noteq> Inr (Flag True)" using that(5) by auto
    moreover have "as ! j = fst (perform kdf (Create u q) (snd (run kdf (take j calls) w)))"
      using run_nth [OF that(2), of kdf w] that(5) by (simp add: as)
    ultimately show ?thesis
      using perform_create_answer [of kdf u q "snd (run kdf (take j calls) w)"] by auto
  qed
  have up: "as ! j = Inr (Flag False)"
    if "\<forall>n. \<not> faults w n" "i < length calls" "j < length calls" "i \<noteq> j"
      "created u (calls ! i, as ! i)" "calls ! j = Create u q" for i j q
    using others [OF that(2-6)] create_answers_when_up [OF that(1,3,6), of kdf]
    by (simp add: as)
  have single: "(fst (create_user kdf u p w) = Inr False \<longrightarrow> u \<in> fst ` set (users w)) \<and>
    (\<not> faults w (txn w) \<longrightarrow> fst (create_user kdf u p w) = Inr (u \<notin> fst ` set (users w)))"
    by (simp add: create_user_eq)
  show ?thesis
    using once others up single by blast
qed


theorem create_user_unique_witness:
  "fst (run toy_kdf two_registrations boot) = [Inr (Flag True), Inr (Flag False)] \<and>
   length (filter (created ''alice'')
     (zip two_registrations (fst (run toy_kdf two_registrations boot)))) \<le> 1 \<and>
   \<not> faults boot (txn boot) \<and>
   fst (create_user toy_kdf ''alice'' ''secret'' boot) = Inr True"
proof -
  have r: "run toy_kdf two_registrations boot =
      (fst (run toy_kdf two_registrations boot), snd (run toy_kdf two_registrations boot))"
    by simp
  have e: "fst (run toy_kdf two_registrations boot) = [Inr (Flag True), Inr (Flag False)]"
    by (simp add: two_registrations_def create_user_eq boot_def stored_def)
  show ?thesis
    using create_user_unique [OF r, of "''alice''" "''secret''"] e by (simp add: boot_def)
qed

subsection \<open>Credentials\<close>

lemma hexval_hexdigit: "n < 16 \<Longrightarrow> hexval (hexdigit n) = Some n"
  by (auto simp: hexval_def hexdigit_def Let_def)

lemma not_space_hexdigit: "n < 16 \<Longrightarrow> \<not> ascii_space (hexdigit n)"
  by (auto simp: ascii_space_def hexdigit_def)

lemma unat_byte_div: "unat (b :: byte) div 16 < 16"
  using unsigned_less [of b, where 'a = nat] by simp

lemma fromhex_hex: "fromhex (hex bs) = Inr bs"
  by (induction bs) (simp_all add: hex_def hex_byte_def hexval_hexdigit not_space_hexdigit unat_byte_div)

lemma hex_eq_iff: "hex a = hex b \<longleftrightarrow> a = b"
proof
  assume "hex a = hex b"
  then have "fromhex (hex a) = fromhex (hex b)" by simp
  then show "a = b" by (simp add: fromhex_hex)
qed simp

lemma verify_password_hex:
  "verify_password kdf p (hex salt) (hex h) = Inr (kdf ''sha256'' (encode p) salt 100000 = h)"
  by (simp add: verify_password_def fromhex_hex hex_eq_iff)

lemma encode_eq_iff: "encode a = encode b \<longleftrightarrow> a = b"
proof
  assume "encode a = encode b"
  then have "map (unat :: byte \<Rightarrow> nat) (encode a) = map unat (encode b)" by simp
  then have "map (of_char :: char \<Rightarrow> nat) a = map of_char b"
    by (simp add: encode_def unat_of_nat comp_def)
  then show "a = b"
    by (simp add: inj_map_eq_map [OF inj_of_char])
qed simp

lemma find_append:
  "find P (xs @ ys) = (case find P xs of None \<Rightarrow> find P ys | Some x \<Rightarrow> Some x)"
  by (induction xs) auto

lemma nth_in_zip: "i < length xs \<Longrightarrow> length ys = length xs \<Longrightarrow> (xs ! i, ys ! i) \<in> set (zip xs ys)"
  by (force simp: in_set_zip)

lemma lookup_kept:
  "find (\<lambda>row. fst row = u) (users w) = Some row \<Longrightarrow>
   find (\<lambda>row. fst row = u) (users (snd (perform kdf c w))) = Some row"
  by (cases c)
     (auto simp: create_user_eq authenticate_user_eq save_message_eq get_recent_messages_eq
        find_append)

lemma lookup_kept_run:
  "find (\<lambda>row. fst row = u) (users w) = Some row \<Longrightarrow>
   find (\<lambda>row. fst row = u) (users (snd (run kdf calls w))) = Some row"
  by (induction calls arbitrary: w) (simp_all add: run_Cons lookup_kept del: run.simps(2))

lemma lookup_None: "find (\<lambda>row. fst row = u) (users w) = None \<longleftrightarrow> u \<notin> fst ` set (users w)"
  by (force simp: find_None_iff)

lemma lookup_created:
  assumes "created u (c, fst (perform kdf c w))"
  shows "\<exists>p salt. c = Create u p \<and> fst (perform kdf c w) = Inr (Flag True) \<and>
     find (\<lambda>row. fst row = u) (users (snd (perform kdf c w))) =
       Some (u, hex salt, hex (kdf ''sha256'' (encode p) salt 100000))"
proof (cases c)
  case (Create a p)
  with assms have a: "a = u" and ok: "\<not> faults w (txn w)" and fresh: "u \<notin> fst ` set (users w)"
    by (auto simp: create_user_eq created_Flag split: if_splits)
  from fresh have "find (\<lambda>row. fst row = u) (users w) = None" by (simp add: lookup_None)
  then show ?thesis
    using Create a ok fresh by (auto simp: create_user_eq find_append stored_def)
qed (use assms in auto)

lemma lookup_not_created:
  assumes "\<not> created u (c, fst (perform kdf c w))" "u \<notin> fst ` set (users w)"
  shows "u \<notin> fst ` set (users (snd (perform kdf c w)))"
  using assms
  by (cases c)
     (auto simp: create_user_eq authenticate_user_eq save_message_eq get_recent_messages_eq
        created_Flag stored_def split: if_splits)

lemma lookup_run:
  assumes "u \<notin> fst ` set (users w)"
  shows "(filter (created u) (zip calls (fst (run kdf calls w))) = [] \<and>
          u \<notin> fst ` set (users (snd (run kdf calls w)))) \<or>
         (\<exists>p salt. (Create u p, Inr (Flag True)) \<in> set (zip calls (fst (run kdf calls w))) \<and>
            find (\<lambda>row. fst row = u) (users (snd (run kdf calls w))) =
              Some (u, hex salt, hex (kdf ''sha256'' (encode p) salt 100000)))"
  using assms
proof (induction calls arbitrary: w)
  case Nil
  then show ?case by simp
next
  case (Cons c calls)
  let ?a = "fst (perform kdf c w)" and ?w1 = "snd (perform kdf c w)"
  show ?case
  proof (cases "created u (c, ?a)")
    case True
    from lookup_created [OF True] obtain p salt where
      c: "c = Create u p" and a: "?a = Inr (Flag True)" and
      f: "find (\<lambda>row. fst row = u) (users ?w1) =
            Some (u, hex salt, hex (kdf ''sha256'' (encode p) salt 100000))"
      by blast
    from f have "find (\<lambda>row. fst row = u) (users (snd (run kdf calls ?w1))) =
            Some (u, hex salt, hex (kdf ''sha256'' (encode p) salt 100000))"
      by (rule lookup_kept_run)
    then show ?thesis
      using c a by (auto simp add: run_Cons simp del: run.simps(2) perform.simps)
  next
    case False
    then have "u \<notin> fst ` set (users ?w1)"
      using Cons.prems by (rule lookup_not_created)
    from Cons.IH [OF this] show ?thesis
      using False by (auto simp add: run_Cons simp del: run.simps(2) perform.simps)
  qed
qed

lemma created_with_created: "created_with u p x \<Longrightarrow> created u x"
  by (induction u p x rule: created_with.induct) auto

lemma created_with_iff: "created_with u p (c, a) \<longleftrightarrow> c = Create u p \<and> a = Inr (Flag True)"
  by (induction u p "(c, a)" rule: created_with.induct) auto

lemma created_iff: "created u (c, a) \<longleftrightarrow> (\<exists>p. c = Create u p) \<and> a = Inr (Flag True)"
  by (induction u "(c, a)" rule: created.induct) auto

lemma hash_password_verifies:
  "\<exists>salt_hex hash_hex w'. hash_password kdf p w = (Inr (salt_hex, hash_hex), w') \<and>
     verify_password kdf p salt_hex hash_hex = Inr True"
  by (simp add: hash_password_def os_urandom_def bind_def return_def Let_def verify_password_hex)

text \<open>What holds of \<^verbatim>\<open>authenticate_user\<close> after any sequence of calls on a store that
  had no accounts, when the store answers and whatever the key derivation is: a
  password hashed by \<^verbatim>\<open>hash_password\<close> verifies against its own salt and hash; the
  password of the successful \<^verbatim>\<open>create_user\<close> of a username is accepted; nothing is
  accepted for a username that no call created.\<close>

lemma authenticate_user_after_run:
  assumes "users w0 = []" and "run kdf calls w0 = (as, w)" and "\<not> faults w (txn w)"
  shows "(\<exists>salt_hex hash_hex w'. hash_password kdf p w = (Inr (salt_hex, hash_hex), w') \<and>
            verify_password kdf p salt_hex hash_hex = Inr True) \<and>
    ((\<exists>i<length calls. created_with u p (calls ! i, as ! i)) \<longrightarrow>
        fst (authenticate_user kdf u p w) = Inr True) \<and>
    (filter (created u) (zip calls as) = [] \<longrightarrow> fst (authenticate_user kdf u p w) = Inr False)"
proof -
  have as: "as = fst (run kdf calls w0)" and w: "w = snd (run kdf calls w0)"
    using assms(2) by simp_all
  have len: "length as = length calls" by (simp add: as run_length)
  have once: "length (filter (created u) (zip calls as)) \<le> 1"
    unfolding as by (rule created_at_most_once)
  have "u \<notin> fst ` set (users w0)" using assms(1) by simp
  from lookup_run [OF this, of calls kdf]
  consider (never) "filter (created u) (zip calls as) = []" "u \<notin> fst ` set (users w)"
    | (once) p' salt where "(Create u p', Inr (Flag True)) \<in> set (zip calls as)"
        "find (\<lambda>row. fst row = u) (users w) =
           Some (u, hex salt, hex (kdf ''sha256'' (encode p') salt 100000))"
    unfolding as w by blast
  then have main:
    "((\<exists>i<length calls. created_with u p (calls ! i, as ! i)) \<longrightarrow>
        fst (authenticate_user kdf u p w) = Inr True) \<and>
    (filter (created u) (zip calls as) = [] \<longrightarrow> fst (authenticate_user kdf u p w) = Inr False)"
  proof cases
    case never
    have no: "\<not> created_with u q (calls ! i, as ! i)" if "i < length calls" for i q
    proof
      assume "created_with u q (calls ! i, as ! i)"
      then have "created u (calls ! i, as ! i)" by (simp add: created_with_created)
      moreover have "(calls ! i, as ! i) \<in> set (zip calls as)" using that len by (simp add: nth_in_zip)
      ultimately have "filter (created u) (zip calls as) \<noteq> []"
        by (auto simp: filter_empty_conv)
      with never(1) show False by simp
    qed
    from never(2) have "find (\<lambda>row. fst row = u) (users w) = None" by (simp add: lookup_None)
    then show ?thesis using no assms(3) by (simp add: authenticate_user_eq)
  next
    case once': once
    from once'(1) obtain i' where i': "i' < length calls" "calls ! i' = Create u p'"
        "as ! i' = Inr (Flag True)"
      using len by (auto simp: in_set_conv_nth)
    have same: "q = p'" if "i < length calls" "created_with u q (calls ! i, as ! i)" for i q
    proof (rule ccontr)
      assume ne: "q \<noteq> p'"
      with that i' have "i \<noteq> i'" by (auto simp: created_with_iff)
      moreover have "created u (zip calls as ! i)" "created u (zip calls as ! i')"
        using that i' len by (auto simp: created_with_iff created_iff)
      ultimately have "2 \<le> length (filter (created u) (zip calls as))"
        using that(1) i'(1) len by (intro filter_two [of i _ i']) auto
      with once show False by simp
    qed
    have auth: "fst (authenticate_user kdf u p w) =
        Inr (kdf ''sha256'' (encode p) salt 100000 = kdf ''sha256'' (encode p') salt 100000)"
      using once'(2) assms(3) by (simp add: authenticate_user_eq verify_password_hex)
    have nonempty: "filter (created u) (zip calls as) \<noteq> []"
    proof -
      have "created u (Create u p', Inr (Flag True))" by simp
      with once'(1) show ?thesis unfolding filter_empty_conv by blast
    qed
    show ?thesis
    proof (intro conjI impI)
      assume "\<exists>i<length calls. created_with u p (calls ! i, as ! i)"
      then have "p = p'" using same by blast
      then show "fst (authenticate_user kdf u p w) = Inr True" using auth by simp
    next
      assume "filter (created u) (zip calls as) = []"
      with nonempty show "fst (authenticate_user kdf u p w) = Inr False" by simp
    qed
  qed
  show ?thesis
    using hash_password_verifies [of kdf p w] main by blast
qed

lemma hmac_key_zero:
  assumes "length key < 64"
  shows "hmac_key digest (key @ [0]) = hmac_key digest key"
proof -
  have "64 - length key = Suc (64 - Suc (length key))"
    using assms by simp
  then have "replicate (64 - length key) (0 :: byte) = 0 # replicate (64 - Suc (length key)) 0"
    by simp
  then show ?thesis
    using assms by (simp add: hmac_key_def Let_def)
qed

lemma pbkdf2_with_zero:
  "pbkdf2_with digest rounds h (encode (''secret'' @ [CHR 0x00])) salt n =
     pbkdf2_with digest rounds h (encode ''secret'') salt n"
proof -
  have "encode (''secret'' @ [CHR 0x00]) = encode ''secret'' @ [0]"
    by (simp add: encode_def)
  moreover have "length (encode ''secret'') < 64"
    by (simp add: encode_def)
  ultimately have "hmac_key digest (encode (''secret'' @ [CHR 0x00])) = hmac_key digest (encode ''secret'')"
    by (simp only: hmac_key_zero)
  then show ?thesis
    by (simp only: pbkdf2_with_def)
qed

subsection \<open>History\<close>

lemma wf_ids_perform: "wf_ids w \<Longrightarrow> wf_ids (snd (perform kdf c w))"
  by (cases c)
     (auto simp: wf_ids_def create_user_eq authenticate_user_eq save_message_eq
        get_recent_messages_eq sorted_wrt_append)

lemma wf_ids_run: "wf_ids w \<Longrightarrow> wf_ids (snd (run kdf calls w))"
  by (induction calls arbitrary: w) (simp_all add: run_Cons wf_ids_perform del: run.simps(2))

lemma newest_rows:
  "- (2 ^ 63) \<le> n \<Longrightarrow> n < 2 ^ 63 \<Longrightarrow>
   map_sum id (\<lambda>rows. map f (rev rows)) (sql_limit n (rev rows)) = Inr (map f (newest n rows))"
  by (simp add: sql_limit_def newest_def rev_take)

lemma get_recent_messages_wf:
  assumes "wf_ids w" "\<not> faults w (txn w)" "- (2 ^ 63) \<le> n" "n < 2 ^ 63"
  shows "fst (get_recent_messages n w) = Inr (newest n (map snd (messages w)))"
proof -
  have "sorted (map fst (messages w))"
    using assms(1) by (simp add: wf_ids_def strict_sorted_imp_sorted)
  then have "sort_key fst (messages w) = messages w"
    by (rule sort_key_id_if_sorted)
  then show ?thesis
    using assms(2,3,4)
    by (simp add: get_recent_messages_eq newest_rows)
       (simp add: newest_def drop_map)
qed

lemma saved_Cons: "saved (x # rest) = saved [x] @ saved rest"
  by (cases "x # rest" rule: saved.cases) auto

lemma newest_map: "newest n (map f xs) = map f (newest n xs)"
  by (simp add: newest_def drop_map)

lemma payload_perform:
  "map payload (messages (snd (perform kdf c w))) =
     map payload (messages w) @ saved [(c, fst (perform kdf c w))]"
  by (cases c)
     (auto simp: create_user_eq authenticate_user_eq save_message_eq get_recent_messages_eq
        payload_def)

lemma payload_run:
  "map payload (messages (snd (run kdf calls w))) =
     map payload (messages w) @ saved (zip calls (fst (run kdf calls w)))"
proof (induction calls arbitrary: w)
  case Nil
  then show ?case by simp
next
  case (Cons c calls)
  show ?case
    using Cons.IH [of "snd (perform kdf c w)"]
          saved_Cons [of "(c, fst (perform kdf c w))"
                         "zip calls (fst (run kdf calls (snd (perform kdf c w))))"]
    by (simp add: run_Cons payload_perform del: run.simps(2) saved.simps)
qed

lemma perform_clock: "clock (snd (perform kdf c w)) = clock w"
  by (cases c)
     (simp_all add: create_user_eq authenticate_user_eq save_message_eq get_recent_messages_eq)

lemma run_clock: "clock (snd (run kdf calls w)) = clock w"
  by (induction calls arbitrary: w) (simp_all add: run_Cons perform_clock del: run.simps(2))

lemma stamped_perform:
  assumes "\<forall>i j. i \<le> j \<longrightarrow> clock w i \<le> clock w j" "stamped w"
  shows "stamped (snd (perform kdf c w))"
proof (cases c)
  case (Save u m)
  have "snd (snd (snd row)) \<le> clock w (ticks w)" if "row \<in> set (messages w)" for row
  proof -
    from that assms(2) obtain j where "j < ticks w" "snd (snd (snd row)) = clock w j"
      by (auto simp: stamped_def)
    with assms(1) show ?thesis by (simp add: less_imp_le)
  qed
  moreover have "\<exists>j<Suc (ticks w). snd (snd (snd row)) = clock w j"
    if "row \<in> set (messages w)" for row
    using that assms(2) by (auto simp: stamped_def less_Suc_eq)
  ultimately show ?thesis
    using Save assms(2) by (auto simp: stamped_def save_message_eq sorted_append)
next
  case (Create u p)
  then show ?thesis using assms(2) by (simp add: stamped_def create_user_eq)
next
  case (Authenticate u p)
  then show ?thesis using assms(2) by (simp add: stamped_def authenticate_user_eq)
next
  case (Recent n)
  then show ?thesis using assms(2) by (simp add: stamped_def get_recent_messages_eq)
qed

lemma stamped_run:
  assumes "\<forall>i j. i \<le> j \<longrightarrow> clock w i \<le> clock w j" "stamped w"
  shows "stamped (snd (run kdf calls w))"
  using assms
proof (induction calls arbitrary: w)
  case Nil
  then show ?case by simp
next
  case (Cons c calls)
  have "stamped (snd (perform kdf c w))"
    using Cons.prems by (rule stamped_perform)
  moreover have "\<forall>i j. i \<le> j \<longrightarrow> clock (snd (perform kdf c w)) i \<le> clock (snd (perform kdf c w)) j"
    using Cons.prems(1) by (simp add: perform_clock)
  ultimately show ?case
    using Cons.IH [of "snd (perform kdf c w)"] by (simp add: run_Cons del: run.simps(2))
qed

text \<open>
  C6 (as amended). After any sequence of calls on a store that had no messages, when
  the store answers and for a limit \<open>n\<close> with \<open>0 \<le> n < 2\<^sup>6\<^sup>3\<close>,
  \<^verbatim>\<open>get_recent_messages(n)\<close> returns at most \<open>n\<close> rows: the last \<open>n\<close> of the messages
  whose \<^verbatim>\<open>save_message\<close> returned, in the order in which they were saved (the order
  of their ids), oldest first. Their timestamps are in order if the readings of the
  clock are.
\<close>

theorem get_recent_messages_newest:
  assumes "messages w0 = []" and "run kdf calls w0 = (as, w)" and "\<not> faults w (txn w)"
      and "0 \<le> n" and "n < 2 ^ 63"
  shows "\<exists>rows. fst (get_recent_messages n w) = Inr rows \<and>
     map (\<lambda>(u, c, t). (u, c)) rows =
       drop (length (saved (zip calls as)) - nat n) (saved (zip calls as)) \<and>
     length rows \<le> nat n \<and>
     ((\<forall>i j. i \<le> j \<longrightarrow> clock w0 i \<le> clock w0 j) \<longrightarrow> sorted (map (\<lambda>(u, c, t). t) rows))"
proof -
  have as: "as = fst (run kdf calls w0)" and w: "w = snd (run kdf calls w0)"
    using assms(2) by simp_all
  let ?rows = "newest n (map snd (messages w))"
  have "wf_ids w0" using assms(1) by (simp add: wf_ids_def)
  then have "wf_ids w" unfolding w by (rule wf_ids_run)
  then have rows: "fst (get_recent_messages n w) = Inr ?rows"
    using assms(3) assms(4,5) by (intro get_recent_messages_wf) simp_all
  have pay: "(\<lambda>(u, c, t). (u, c)) \<circ> snd = payload"
    by (auto simp: payload_def fun_eq_iff)
  have "map payload (messages w) = saved (zip calls as)"
    unfolding as w using assms(1) by (simp add: payload_run)
  then have "newest n (map payload (messages w)) = newest n (saved (zip calls as))"
    by simp
  then have "map (\<lambda>(u, c, t). (u, c)) ?rows = newest n (saved (zip calls as))"
    by (simp add: newest_map [symmetric] pay)
  then have a: "map (\<lambda>(u, c, t). (u, c)) ?rows =
      drop (length (saved (zip calls as)) - nat n) (saved (zip calls as))"
    using assms(4) by (simp add: newest_def)
  have b: "length ?rows \<le> nat n"
    using assms(4) by (auto simp: newest_def)
  have c: "sorted (map (\<lambda>(u, c, t). t) ?rows)" if mono: "\<forall>i j. i \<le> j \<longrightarrow> clock w0 i \<le> clock w0 j"
  proof -
    have "stamped w0" using assms(1) by (simp add: stamped_def)
    with mono have "stamped w" unfolding w by (rule stamped_run)
    then have "sorted (map (\<lambda>row. snd (snd (snd row))) (messages w))"
      by (simp add: stamped_def)
    moreover have "(\<lambda>(u, c, t). t) \<circ> snd = (\<lambda>row :: nat \<times> string \<times> string \<times> string. snd (snd (snd row)))"
      by (auto simp: fun_eq_iff)
    ultimately have "sorted (map ((\<lambda>(u, c, t). t) \<circ> snd) (messages w))"
      by (simp only:)
    then have "sorted (map (\<lambda>(u, c, t). t) (map snd (messages w)))"
      by (simp only: map_map)
    then have "sorted (newest n (map (\<lambda>(u, c, t). t) (map snd (messages w))))"
      by (simp add: newest_def del: map_map)
    then show ?thesis
      by (simp only: newest_map)
  qed
  show ?thesis using rows a b c by blast
qed


theorem get_recent_messages_newest_witness:
  "messages boot = [] \<and>
   fst (run toy_kdf two_saves boot) = [Inr Done, Inr Done] \<and>
   \<not> faults (snd (run toy_kdf two_saves boot)) (txn (snd (run toy_kdf two_saves boot))) \<and>
   (0::int) \<le> 1 \<and> (1::int) < 2 ^ 63 \<and>
   (\<exists>rows. fst (get_recent_messages 1 (snd (run toy_kdf two_saves boot))) = Inr rows \<and>
      map (\<lambda>(u, c, t). (u, c)) rows = [(''bob'', ''two'')] \<and>
      length rows \<le> 1 \<and> sorted (map (\<lambda>(u, c, t). t) rows))"
proof -
  let ?w = "snd (run toy_kdf two_saves boot)"
  have m: "messages boot = []" by (simp add: boot_def)
  have e: "fst (run toy_kdf two_saves boot) = [Inr Done, Inr Done]"
    by (simp add: two_saves_def save_message_eq boot_def)
  have r: "run toy_kdf two_saves boot = ([Inr Done, Inr Done], ?w)"
    using e by (simp add: prod_eq_iff)
  have f: "\<not> faults ?w (txn ?w)"
    by (simp add: two_saves_def save_message_eq boot_def)
  have c: "\<forall>i j. i \<le> j \<longrightarrow> clock boot i \<le> clock boot j"
    by (simp add: boot_def)
  have n: "saved (zip two_saves [Inr Done, Inr Done]) = [(''alice'', ''one''), (''bob'', ''two'')]"
    by (simp add: two_saves_def)
  show ?thesis
    using get_recent_messages_newest [OF m r f, of 1] m e f c n by simp
qed

text \<open>
  C6 (as stated) fails. The rows come in the order of their ids, and the timestamps of
  two messages saved around a clock change are not in order. And not every \<open>n\<close> is a
  bound on the number of rows: with the limit \<open>-1\<close> two rows come back, and the limit
  \<open>2\<^sup>6\<^sup>3\<close> raises \<^verbatim>\<open>OverflowError\<close>.
\<close>

theorem get_recent_messages_not_by_timestamp:
  "fst (get_recent_messages 20 dst_night) =
     Inr [(''alice'', ''one'', ''2025-11-02 01:59:59''), (''bob'', ''two'', ''2025-11-02 01:00:00'')] \<and>
   \<not> sorted [''2025-11-02 01:59:59'', ''2025-11-02 01:00:00''] \<and>
   fst (get_recent_messages (- 1) dst_night) =
     Inr [(''alice'', ''one'', ''2025-11-02 01:59:59''), (''bob'', ''two'', ''2025-11-02 01:00:00'')] \<and>
   fst (get_recent_messages (2 ^ 63) dst_night) = Inl OverflowError"
  by (simp add: dst_night_def two_saves_def save_message_eq get_recent_messages_eq boot_def
      set_back_def sql_limit_def)

section \<open>Broadcast\<close>

lemma sendall_eq:
  "sendall k data w =
     (if accepts (socks w k) data then Inr () else Inl OSError,
      w\<lparr>socks := (socks w)(k := sent (socks w k) data)\<rparr>)"
  by (simp add: sendall_def accepts_def sent_def Let_def split: option.splits)

lemma send_line_eq:
  "send_line k txt w =
     (if accepts (socks w k) (wire txt) then Inr () else Inl OSError,
      w\<lparr>log := log w @ [Send_line k txt],
        socks := (socks w)(k := sent (socks w k) (wire txt))\<rparr>)"
  by (simp add: send_line_def sendall_eq bind_def wire_def)

lemma fan_out_eq:
  "fan_out cs line w =
     (Inr (), w\<lparr>log := log w @ map (\<lambda>c. Send_line (conn c) line) cs,
               socks := deliver cs (wire line) (socks w)\<rparr>)"
  by (induction cs arbitrary: w) (simp_all add: send_line_eq)

lemma broadcast_message_eq:
  "broadcast_message s c w =
     (if faults w (txn w) then
        (Inl OperationalError,
         w\<lparr>log := log w @ [Save_message s c], ticks := ticks w + 1, txn := txn w + 1\<rparr>)
      else
        (Inr (),
         w\<lparr>log := log w @ Save_message s c #
                  map (\<lambda>cl. Send_line (conn cl) (''['' @ s @ ''] '' @ c)) (clients w),
           ticks := ticks w + 1, txn := txn w + 1, seq := seq w + 1,
           messages := messages w @ [(seq w + 1, s, c, clock w (ticks w))],
           socks := deliver (clients w) (wire (''['' @ s @ ''] '' @ c)) (socks w)\<rparr>))"
  by (simp add: broadcast_message_def bind_def save_message_eq fan_out_eq Let_def)

lemma deliver_other: "k \<notin> conn ` set cs \<Longrightarrow> deliver cs data ss k = ss k"
  by (induction cs arbitrary: ss) auto

lemma deliver_once:
  "distinct (map conn cs) \<Longrightarrow> c \<in> set cs \<Longrightarrow> deliver cs data ss (conn c) = sent (ss (conn c)) data"
proof (induction cs arbitrary: ss)
  case Nil
  then show ?case by simp
next
  case (Cons a cs)
  show ?case
  proof (cases "conn c = conn a")
    case True
    then have "conn c \<notin> conn ` set cs" using Cons.prems(1) by auto
    then show ?thesis using True by (simp add: deliver_other)
  next
    case False
    let ?ss = "ss(conn a := sent (ss (conn a)) data)"
    from False have "c \<in> set cs" using Cons.prems(2) by auto
    moreover have "distinct (map conn cs)" using Cons.prems(1) by simp
    ultimately have "deliver cs data ?ss (conn c) = sent (?ss (conn c)) data"
      by (intro Cons.IH)
    then show ?thesis using False by simp
  qed
qed

lemma sent_accepts: "accepts s data \<Longrightarrow> outgoing (sent s data) = outgoing s @ data"
  by (auto simp: accepts_def sent_def split: option.splits)

lemma count_distinct:
  "distinct xs \<Longrightarrow> x \<in> set xs \<Longrightarrow> length (filter (\<lambda>y. y = x) xs) = 1"
  by (induction xs) (auto simp: filter_empty_conv)


lemma filter_sends:
  "filter (\<lambda>e. e = Send_line k line) (map (\<lambda>cl. Send_line (conn cl) line) cs) =
     map (\<lambda>k. Send_line k line) (filter (\<lambda>j. j = k) (map conn cs))"
  by (induction cs) simp_all

text \<open>
  C1. When the store takes the message and the registry holds each connection once,
  \<^verbatim>\<open>broadcast_message(sender, content)\<close> returns; it has saved the message first,
  as one new row, and has then called \<^verbatim>\<open>send_line\<close> with the line \<open>[sender] content\<close>
  once for each registered session, the sender's own included, and for nobody else: a
  session whose socket takes the line has received exactly that line, and a connection
  that is not registered has received nothing.
\<close>

theorem broadcast_message_fan_out:
  assumes "\<not> faults w (txn w)" and "distinct (map conn (clients w))"
  shows "fst (broadcast_message s c w) = Inr () \<and>
    messages (snd (broadcast_message s c w)) =
      messages w @ [(seq w + 1, s, c, clock w (ticks w))] \<and>
    log (snd (broadcast_message s c w)) =
      log w @ Save_message s c # map (\<lambda>cl. Send_line (conn cl) (''['' @ s @ ''] '' @ c)) (clients w) \<and>
    (\<forall>cl \<in> set (clients w).
       length (filter (\<lambda>e. e = Send_line (conn cl) (''['' @ s @ ''] '' @ c))
         (drop (length (log w)) (log (snd (broadcast_message s c w))))) = 1 \<and>
       (accepts (socks w (conn cl)) (wire (''['' @ s @ ''] '' @ c)) \<longrightarrow>
          outgoing (socks (snd (broadcast_message s c w)) (conn cl)) =
            outgoing (socks w (conn cl)) @ wire (''['' @ s @ ''] '' @ c))) \<and>
    (\<forall>k. k \<notin> conn ` set (clients w) \<longrightarrow> socks (snd (broadcast_message s c w)) k = socks w k)"
proof -
  let ?line = "''['' @ s @ ''] '' @ c"
  have count: "length (filter (\<lambda>e. e = Send_line (conn cl) ?line)
      (map (\<lambda>cl. Send_line (conn cl) ?line) (clients w))) = 1" if "cl \<in> set (clients w)" for cl
  proof -
    have "filter (\<lambda>e. e = Send_line (conn cl) ?line) (map (\<lambda>cl. Send_line (conn cl) ?line) (clients w))
        = map (\<lambda>k. Send_line k ?line) (filter (\<lambda>k. k = conn cl) (map conn (clients w)))"
      by (rule filter_sends)
    then show ?thesis
      using count_distinct [OF assms(2), of "conn cl"] that by simp
  qed
  have out: "outgoing (deliver (clients w) (wire ?line) (socks w) (conn cl)) =
      outgoing (socks w (conn cl)) @ wire ?line"
    if "cl \<in> set (clients w)" "accepts (socks w (conn cl)) (wire ?line)" for cl
    using that by (simp add: deliver_once [OF assms(2)] sent_accepts)
  show ?thesis
    using assms(1) count out by (simp add: broadcast_message_eq deliver_other)
qed


theorem broadcast_message_fan_out_witness:
  "\<not> faults room (txn room) \<and> distinct (map conn (clients room)) \<and>
   fst (broadcast_message ''alice'' ''hi'' room) = Inr () \<and>
   messages (snd (broadcast_message ''alice'' ''hi'' room)) =
     [(1, ''alice'', ''hi'', ''2025-01-01 12:00:00'')] \<and>
   log (snd (broadcast_message ''alice'' ''hi'' room)) =
     [Save_message ''alice'' ''hi'', Send_line 1 ''[alice] hi'', Send_line 2 ''[alice] hi''] \<and>
   outgoing (socks (snd (broadcast_message ''alice'' ''hi'' room)) 1) = wire ''[alice] hi'' \<and>
   outgoing (socks (snd (broadcast_message ''alice'' ''hi'' room)) 2) = wire ''[alice] hi'' \<and>
   outgoing (socks (snd (broadcast_message ''alice'' ''hi'' room)) 3) = []"
proof -
  have f: "\<not> faults room (txn room)" by (simp add: room_def boot_def)
  have d: "distinct (map conn (clients room))" by (simp add: room_def)
  have a: "accepts (socks room k) data" for k data
    by (simp add: room_def boot_def fresh_socket_def accepts_def)
  show ?thesis
    using broadcast_message_fan_out [OF f d, of "''alice''" "''hi''"] f d a
    by (simp add: room_def boot_def fresh_socket_def)
qed

text \<open>
  C2. If \<^verbatim>\<open>save_message\<close> raises, \<^verbatim>\<open>broadcast_message\<close> raises the same exception,
  no socket has changed, no \<^verbatim>\<open>send_line\<close> was called and nothing was stored.
\<close>

theorem broadcast_message_persist_failure:
  assumes "fst (save_message s c w) = Inl e"
  shows "fst (broadcast_message s c w) = Inl e \<and>
    socks (snd (broadcast_message s c w)) = socks w \<and>
    log (snd (broadcast_message s c w)) = log w @ [Save_message s c] \<and>
    messages (snd (broadcast_message s c w)) = messages w"
  using assms by (simp add: broadcast_message_eq save_message_eq split: if_splits)

theorem broadcast_message_persist_failure_witness:
  "fst (save_message ''alice'' ''hi'' store_down) = Inl OperationalError \<and>
   fst (broadcast_message ''alice'' ''hi'' store_down) = Inl OperationalError \<and>
   outgoing (socks (snd (broadcast_message ''alice'' ''hi'' store_down)) 1) = [] \<and>
   outgoing (socks (snd (broadcast_message ''alice'' ''hi'' store_down)) 2) = [] \<and>
   log (snd (broadcast_message ''alice'' ''hi'' store_down)) = [Save_message ''alice'' ''hi'']"
proof -
  have s: "fst (save_message ''alice'' ''hi'' store_down) = Inl OperationalError"
    by (simp add: save_message_eq store_down_def outage_def)
  show ?thesis
    using broadcast_message_persist_failure [OF s] s
    by (simp add: store_down_def room_def boot_def fresh_socket_def)
qed

text \<open>
  C3. The loop over the copied list never raises: a \<^verbatim>\<open>send_line\<close> that fails is
  skipped, \<^verbatim>\<open>send_line\<close> is still called for every entry of the list, and every entry
  whose socket takes the line has received it, whatever the other sockets do. So
  \<^verbatim>\<open>broadcast_message\<close> fails only if \<^verbatim>\<open>save_message\<close> does.
\<close>

theorem fan_out_skips_failures:
  "fst (fan_out cs line w) = Inr () \<and>
   log (snd (fan_out cs line w)) = log w @ map (\<lambda>c. Send_line (conn c) line) cs \<and>
   (distinct (map conn cs) \<longrightarrow>
      (\<forall>c \<in> set cs. accepts (socks w (conn c)) (wire line) \<longrightarrow>
         outgoing (socks (snd (fan_out cs line w)) (conn c)) =
           outgoing (socks w (conn c)) @ wire line)) \<and>
   fst (broadcast_message s content w) = fst (save_message s content w)"
  by (simp add: fan_out_eq deliver_once sent_accepts broadcast_message_eq save_message_eq)

theorem fan_out_skips_failures_witness:
  "distinct (map conn (clients broken_room)) \<and>
   \<not> accepts (socks broken_room 1) (wire ''[bob] hi'') \<and>
   accepts (socks broken_room 2) (wire ''[bob] hi'') \<and>
   fst (fan_out (clients broken_room) ''[bob] hi'' broken_room) = Inr () \<and>
   log (snd (fan_out (clients broken_room) ''[bob] hi'' broken_room)) =
     [Send_line 1 ''[bob] hi'', Send_line 2 ''[bob] hi''] \<and>
   outgoing (socks (snd (fan_out (clients broken_room) ''[bob] hi'' broken_room)) 2) =
     wire ''[bob] hi'' \<and>
   fst (broadcast_message ''bob'' ''hi'' broken_room) = Inr ()"
proof -
  have d: "distinct (map conn (clients broken_room))"
    by (simp add: broken_room_def room_def)
  have n: "\<not> accepts (socks broken_room 1) (wire ''[bob] hi'')"
    by (simp add: broken_room_def room_def fresh_socket_def accepts_def wire_def encode_def)
  have a: "accepts (socks broken_room 2) (wire ''[bob] hi'')"
    by (simp add: broken_room_def room_def boot_def fresh_socket_def accepts_def)
  have s: "fst (save_message ''bob'' ''hi'' broken_room) = Inr ()"
    by (simp add: save_message_eq broken_room_def room_def boot_def)
  show ?thesis
    using fan_out_skips_failures [of "clients broken_room" "''[bob] hi''" broken_room "''bob''" "''hi''"]
      d n a s
    by (simp add: broken_room_def room_def boot_def fresh_socket_def)
qed


section \<open>The handler of one connection\<close>

lemma grows_iff: "grows P w w' \<longleftrightarrow> (\<exists>es. log w' = log w @ es \<and> list_all P es)"
proof
  assume g: "grows P w w'"
  have "log w' = take (length (log w)) (log w') @ drop (length (log w)) (log w')"
    by simp
  with g have "log w' = log w @ new_events w w'"
    by (simp add: grows_def new_events_def)
  moreover from g have "list_all P (new_events w w')"
    by (simp add: grows_def)
  ultimately show "\<exists>es. log w' = log w @ es \<and> list_all P es" by blast
next
  assume "\<exists>es. log w' = log w @ es \<and> list_all P es"
  then show "grows P w w'" by (auto simp: grows_def new_events_def)
qed

lemma grows_refl: "grows P w w"
  by (simp add: grows_iff)

lemma grows_trans: "grows P a b \<Longrightarrow> grows P b c \<Longrightarrow> grows P a c"
  by (auto simp: grows_iff)

lemma grows_mono: "(\<And>e. P e \<Longrightarrow> Q e) \<Longrightarrow> grows P w w' \<Longrightarrow> grows Q w w'"
  by (auto simp: grows_iff list_all_iff)

lemma quiet_refl: "quiet k w w"
  by (simp add: quiet_def grows_refl)

lemma quiet_trans: "quiet k a b \<Longrightarrow> quiet k b c \<Longrightarrow> quiet k a c"
  unfolding quiet_def by (auto intro: grows_trans)

lemma presD: "pres R f \<Longrightarrow> f w = (r, w') \<Longrightarrow> R w w'"
  unfolding pres_def by (metis snd_conv)

lemma pres_attempt:
  assumes "\<And>a b c. R a b \<Longrightarrow> R b c \<Longrightarrow> R a c" "pres R m" "\<And>x. pres R (f x)"
  shows "pres R (attempt h m f)"
  unfolding pres_def attempt_def
proof
  fix w
  show "R w (snd (case m w of (Inl e, w') \<Rightarrow> (h e, w') | (Inr x, w') \<Rightarrow> f x w'))"
  proof (cases "m w")
    case (Pair r w')
    have 1: "R w w'" using assms(2) Pair by (auto simp: pres_def dest: spec [of _ w])
    show ?thesis
    proof (cases r)
      case (Inl e)
      then show ?thesis using Pair 1 by simp
    next
      case (Inr x)
      have "R w' (snd (f x w'))" using assms(3) [of x] by (simp add: pres_def)
      then show ?thesis using Pair Inr 1 assms(1) by auto
    qed
  qed
qed

lemma pres_bind:
  assumes "\<And>a b c. R a b \<Longrightarrow> R b c \<Longrightarrow> R a c" "pres R m" "\<And>x. pres R (f x)"
  shows "pres R (bind m f)"
proof -
  have "bind m f = attempt Inl m f"
    by (auto simp: bind_def attempt_def fun_eq_iff split: prod.splits sum.splits)
  then show ?thesis using pres_attempt [of R m f Inl] assms by simp
qed

lemma pres_andthen:
  assumes "\<And>a b c. R a b \<Longrightarrow> R b c \<Longrightarrow> R a c" "pres R m" "pres R n"
  shows "pres R (andthen m n)"
  unfolding andthen_def using assms by (intro pres_bind) auto

lemma pres_Pair: "(\<And>w. R w w) \<Longrightarrow> pres R (Pair r)"
  by (simp add: pres_def)

lemma pres_return: "(\<And>w. R w w) \<Longrightarrow> pres R (return x)"
  by (simp add: pres_def return_def)

lemma quiet_send_line: "pres (quiet k) (send_line k txt)"
  by (simp add: pres_def quiet_def send_line_eq grows_iff sent_def split: option.splits)

lemma quiet_create_user: "pres (quiet k) (create_user kdf u p)"
  by (simp add: pres_def quiet_def create_user_eq grows_iff)

lemma quiet_authenticate_user: "pres (quiet k) (authenticate_user kdf u p)"
  by (simp add: pres_def quiet_def authenticate_user_eq grows_iff)

lemmas quiet_rules =
  pres_attempt [where R = "quiet k", OF quiet_trans]
  pres_Pair [where R = "quiet k", OF quiet_refl]
  quiet_send_line quiet_create_user quiet_authenticate_user
  for k

lemma quiet_auth_step: "pres (quiet k) (auth_step kdf k file_obj)"
  unfolding auth_step_def Let_def
  by (auto intro!: quiet_rules split: prod.splits)


lemma auth_loop_quiet: "quiet k w (snd (auth_loop kdf k file_obj w))"
proof (induction kdf k file_obj w rule: auth_loop.induct)
  case (1 kdf k file_obj w)
  obtain a w1 where step: "auth_step kdf k file_obj w = (a, w1)"
    by (cases "auth_step kdf k file_obj w")
  have q: "quiet k w w1"
    using quiet_auth_step step by (rule presD)
  show ?case
  proof (cases a)
    case (Again rest)
    have "quiet k w1 (snd (auth_loop kdf k rest w1))"
      using "1.IH" [OF step [symmetric] Again] .
    with q show ?thesis
      using step Again by (subst auth_loop.simps) (auto intro: quiet_trans)
  next
    case (Authenticated u rest)
    with q step show ?thesis by (subst auth_loop.simps) simp
  next
    case (Left x un)
    with q step show ?thesis by (subst auth_loop.simps) simp
  qed
qed

lemma auth_step_exit:
  "auth_step kdf k file_obj w = (Left x un, w') \<Longrightarrow> (x = Returned \<longrightarrow> un = None) \<and> x \<noteq> Finished"
  by (auto simp: auth_step_def attempt_def readline_def Let_def
           split: list.splits sum.splits prod.splits if_splits)

lemma auth_loop_exit:
  "auth_loop kdf k file_obj w = (a, w') \<Longrightarrow>
     (\<forall>rest. a \<noteq> Again rest) \<and> (\<forall>x un. a = Left x un \<longrightarrow> (x = Returned \<longrightarrow> un = None) \<and> x \<noteq> Finished)"
proof (induction kdf k file_obj w rule: auth_loop.induct)
  case (1 kdf k file_obj w)
  obtain b w1 where step: "auth_step kdf k file_obj w = (b, w1)"
    by (cases "auth_step kdf k file_obj w")
  show ?case
  proof (cases b)
    case (Again rest)
    have "auth_loop kdf k rest w1 = (a, w')"
      using "1.prems" step Again by (subst (asm) auth_loop.simps) simp
    then show ?thesis
      using "1.IH" [OF step [symmetric] Again] by simp
  next
    case (Authenticated u rest)
    then have "a = Authenticated u rest"
      using "1.prems" step by (subst (asm) auth_loop.simps) simp
    then show ?thesis by simp
  next
    case (Left x un)
    then have "a = Left x un"
      using "1.prems" step by (subst (asm) auth_loop.simps) simp
    then show ?thesis using auth_step_exit [of kdf k file_obj w x un w1] step Left by simp
  qed
qed


lemma quiet_no_close: "quiet k w w' \<Longrightarrow> grows no_close w w'"
proof -
  have "no_close e" if "only_sends k e" for e
    using that by (cases e) auto
  then show "quiet k w w' \<Longrightarrow> grows no_close w w'"
    unfolding quiet_def by (blast intro: grows_mono)
qed

lemma quiet_chat_event: "quiet k w w' \<Longrightarrow> grows (chat_event k u) w w'"
proof -
  have "chat_event k u e" if "only_sends k e" for e
    using that by (cases e) auto
  then show "quiet k w w' \<Longrightarrow> grows (chat_event k u) w w'"
    unfolding quiet_def by (blast intro: grows_mono)
qed

lemma chat_event_no_close: "grows (chat_event k u) w w' \<Longrightarrow> grows no_close w w'"
proof -
  have "no_close e" if "chat_event k u e" for e
    using that by (cases e) auto
  then show "grows (chat_event k u) w w' \<Longrightarrow> grows no_close w w'"
    by (blast intro: grows_mono)
qed

lemma grows_member: "grows P w w' \<Longrightarrow> e \<in> set (new_events w w') \<Longrightarrow> P e"
  by (auto simp: grows_def list_all_iff)

lemma calm_send_line: "pres (grows (chat_event k u)) (send_line j txt)"
  by (simp add: pres_def send_line_eq grows_iff)

lemma calm_broadcast_message: "pres (grows (chat_event k u)) (broadcast_message s c)"
  by (simp add: pres_def broadcast_message_eq grows_iff list_all_iff)

lemma calm_append_client: "pres (grows (chat_event k u)) (append_client k u)"
  by (simp add: pres_def append_client_def grows_iff)

lemma calm_get_recent_messages: "pres (grows (chat_event k u)) (get_recent_messages n)"
  by (simp add: pres_def get_recent_messages_eq grows_iff)

lemmas calm_rules =
  pres_attempt [where R = "grows (chat_event k u)", OF grows_trans]
  pres_bind [where R = "grows (chat_event k u)", OF grows_trans]
  pres_andthen [where R = "grows (chat_event k u)", OF grows_trans]
  pres_Pair [where R = "grows (chat_event k u)", OF grows_refl]
  pres_return [where R = "grows (chat_event k u)", OF grows_refl]
  calm_send_line calm_broadcast_message calm_append_client calm_get_recent_messages
  for k u

lemma calm_replay: "pres (grows (chat_event k u)) (replay j rows)"
  by (induction j rows rule: replay.induct) (auto intro!: calm_rules)

lemma calm_enter_chat: "pres (grows (chat_event k u)) (enter_chat k u)"
  unfolding enter_chat_def by (intro calm_rules calm_replay allI)

lemma calm_chat_step: "pres (grows (chat_event k u)) (chat_step k u file_obj)"
  unfolding chat_step_def Let_def
  by (auto intro!: calm_rules split: prod.splits)

lemma chat_step_exit: "chat_step k u file_obj w = (Chat_left x, w') \<Longrightarrow> x \<noteq> Returned"
  by (auto simp: chat_step_def attempt_def readline_def Let_def
           split: list.splits sum.splits prod.splits if_splits)

lemma chat_loop_calm:
  "grows (chat_event k u) w (snd (chat_loop k u file_obj w)) \<and>
   fst (chat_loop k u file_obj w) \<noteq> Returned"
proof (induction k u file_obj w rule: chat_loop.induct)
  case (1 k u file_obj w)
  obtain a w1 where step: "chat_step k u file_obj w = (a, w1)"
    by (cases "chat_step k u file_obj w")
  have q: "grows (chat_event k u) w w1"
    using calm_chat_step step by (rule presD)
  show ?case
  proof (cases a)
    case (Chat_again rest)
    have "grows (chat_event k u) w1 (snd (chat_loop k u rest w1)) \<and>
        fst (chat_loop k u rest w1) \<noteq> Returned"
      using "1.IH" [OF step [symmetric] Chat_again] .
    with q show ?thesis
      using step Chat_again by (subst (1 2) chat_loop.simps) (auto intro: grows_trans)
  next
    case (Chat_left x)
    with q step chat_step_exit [of k u file_obj w x w1] show ?thesis
      by (subst (1 2) chat_loop.simps) simp
  qed
qed

text \<open>The \<^verbatim>\<open>try\<close> block: nothing is closed in it; with \<^verbatim>\<open>username\<close> unset it has
  only sent lines on its own connection; it is not left by \<^verbatim>\<open>return\<close> with
  \<^verbatim>\<open>username\<close> set; and with \<^verbatim>\<open>username\<close> set the only entry it has added to the
  registry, if any, is its own.\<close>

lemma try_block_cases:
  assumes "try_block kdf k file_obj w = ((x, un), w1)"
  shows "grows no_close w w1 \<and> (un = None \<longrightarrow> quiet k w w1) \<and> (x = Returned \<longrightarrow> un = None) \<and>
    (\<forall>u. un = Some u \<longrightarrow> grows (chat_event k u) w w1)"
proof -
  let ?hello = "send_line k ''Welcome to the chat server!''"
  let ?ask = "send_line k ''Type 'register' to create an account or 'login' to sign in:''"
  obtain r1 wa where a: "?hello w = (r1, wa)" by (cases "?hello w")
  obtain r2 wb where b: "?ask wa = (r2, wb)" by (cases "?ask wa")
  obtain au wc where c: "auth_loop kdf k file_obj wb = (au, wc)"
    by (cases "auth_loop kdf k file_obj wb")
  have qa: "quiet k w wa"
    using quiet_send_line a by (rule presD)
  have qb: "quiet k w wb"
    using qa presD [OF quiet_send_line b] by (rule quiet_trans)
  have qc: "quiet k w wc"
    using auth_loop_quiet [of k wb kdf file_obj] c qb by (auto intro: quiet_trans)
  note ex = auth_loop_exit [OF c]
  show ?thesis
  proof (cases r1)
    case (Inl e)
    then show ?thesis
      using assms a qa by (auto simp: try_block_def attempt_def Let_def quiet_no_close)
  next
    case r1: (Inr u1)
    show ?thesis
    proof (cases r2)
      case (Inl e)
      then show ?thesis
        using assms a b r1 qb by (auto simp: try_block_def attempt_def Let_def quiet_no_close)
    next
      case r2: (Inr u2)
      show ?thesis
      proof (cases au)
        case (Again rest)
        with ex show ?thesis by simp
      next
        case (Left y un')
        then show ?thesis
          using assms a b c r1 r2 qc ex
          by (auto simp: try_block_def attempt_def Let_def quiet_no_close quiet_chat_event)
      next
        case (Authenticated uname rest)
        obtain r3 wd where d: "enter_chat k uname wc = (r3, wd)" by (cases "enter_chat k uname wc")
        have gd: "grows (chat_event k uname) w wd"
          using quiet_chat_event [OF qc] presD [OF calm_enter_chat d] by (rule grows_trans)
        have ge: "grows (chat_event k uname) w (snd (chat_loop k uname rest wd))"
          "fst (chat_loop k uname rest wd) \<noteq> Returned"
          using chat_loop_calm [of k uname wd rest] gd by (auto intro: grows_trans)
        have eq: "un = Some uname" "w1 = wd \<or> w1 = snd (chat_loop k uname rest wd)"
          "x \<noteq> Returned"
          using assms a b c d r1 r2 Authenticated ge(2)
          by (auto simp: try_block_def attempt_def Let_def split: sum.splits prod.splits)
        have "grows (chat_event k uname) w w1"
          using eq(2) gd ge(1) by auto
        then show ?thesis
          using eq(1,3) by (auto dest: chat_event_no_close)
      qed
    qed
  qed
qed


lemma socket_close_fields:
  "closed (socket_close s)" "outgoing (socket_close s) = outgoing s"
  "budget (socket_close s) = budget s"
  by (simp_all add: socket_close_def)

lemma makefile_fields:
  "log (makefile k w) = log w" "clients (makefile k w) = clients w"
  "messages (makefile k w) = messages w" "faults (makefile k w) = faults w"
  "j \<noteq> k \<Longrightarrow> socks (makefile k w) j = socks w j"
  "outgoing (socks (makefile k w) j) = outgoing (socks w j)"
  by (simp_all add: makefile_def)

lemma drop_file_fields:
  "log (drop_file k w) = log w" "clients (drop_file k w) = clients w"
  "messages (drop_file k w) = messages w"
  "j \<noteq> k \<Longrightarrow> socks (drop_file k w) j = socks w j"
  "closed (socks (drop_file k w) j) = closed (socks w j)"
  "outgoing (socks (drop_file k w) j) = outgoing (socks w j)"
  by (auto simp: drop_file_def decref_socketios_def socket_close_def Let_def)

lemma handle_client_eq:
  "try_block kdf k file_obj (makefile k w) = ((x, un), w1) \<Longrightarrow>
   handle_client kdf k file_obj w =
     (fst (finally_block k un w1), drop_file k (snd (finally_block k un w1)))"
  by (simp add: handle_client_def split: prod.splits)

lemma finally_block_None:
  "finally_block k None w =
     (Inr (), w\<lparr>socks := (socks w)(k := socket_close (socks w k)), log := log w @ [Close k]\<rparr>)"
  by (simp add: finally_block_def andthen_def bind_def return_def close_def)

lemma finally_block_Some:
  "fst (finally_block k (Some u) w) = (if faults w (txn w) then Inl OperationalError else Inr ())"
  "clients (snd (finally_block k (Some u) w)) = filter (\<lambda>c. conn c \<noteq> k) (clients w)"
  "log (snd (finally_block k (Some u) w)) =
     log w @ Remove_client k # Save_message ''SYSTEM'' (u @ '' has left the chat.'') #
       (if faults w (txn w) then []
        else map (\<lambda>cl. Send_line (conn cl) (''[SYSTEM] '' @ u @ '' has left the chat.''))
               (filter (\<lambda>c. conn c \<noteq> k) (clients w)) @ [Close k])"
  "messages (snd (finally_block k (Some u) w)) =
     (if faults w (txn w) then messages w
      else messages w @ [(seq w + 1, ''SYSTEM'', u @ '' has left the chat.'', clock w (ticks w))])"
  "socks (snd (finally_block k (Some u) w)) =
     (if faults w (txn w) then socks w
      else (deliver (filter (\<lambda>c. conn c \<noteq> k) (clients w))
              (wire (''[SYSTEM] '' @ u @ '' has left the chat.'')) (socks w))
           (k := socket_close (deliver (filter (\<lambda>c. conn c \<noteq> k) (clients w))
              (wire (''[SYSTEM] '' @ u @ '' has left the chat.'')) (socks w) k)))"
  by (simp_all add: finally_block_def andthen_def bind_def remove_client_def close_def
      broadcast_message_eq)

lemma new_events_append: "log w' = log w @ es \<Longrightarrow> new_events w w' = es"
  by (simp add: new_events_def)

lemma list_all_sends: "list_all no_close (map (\<lambda>cl. Send_line (f cl) line) cs)"
  by (simp add: list_all_iff)

text \<open>The registry during and after a run: the \<^verbatim>\<open>try\<close> block leaves the list as
  it was or with the one entry of its connection at the end, and a handler on a
  connection that is not in the list leaves the list as it found it.\<close>

lemma same_registry_refl: "same_registry w w"
  by (simp add: same_registry_def)

lemma same_registry_trans: "same_registry a b \<Longrightarrow> same_registry b c \<Longrightarrow> same_registry a c"
  by (simp add: same_registry_def)

lemma quiet_same_registry: "quiet k w w' \<Longrightarrow> same_registry w w'"
  by (simp add: quiet_def same_registry_def)

lemma registry_send_line: "pres same_registry (send_line k txt)"
  by (simp add: pres_def same_registry_def send_line_eq)

lemma registry_broadcast_message: "pres same_registry (broadcast_message s c)"
  by (simp add: pres_def same_registry_def broadcast_message_eq)

lemma registry_get_recent_messages: "pres same_registry (get_recent_messages n)"
  by (simp add: pres_def same_registry_def get_recent_messages_eq)

lemmas registry_rules =
  pres_attempt [where R = same_registry, OF same_registry_trans]
  pres_bind [where R = same_registry, OF same_registry_trans]
  pres_andthen [where R = same_registry, OF same_registry_trans]
  pres_Pair [where R = same_registry, OF same_registry_refl]
  pres_return [where R = same_registry, OF same_registry_refl]
  registry_send_line registry_broadcast_message registry_get_recent_messages

lemma registry_replay: "pres same_registry (replay k rows)"
  by (induction k rows rule: replay.induct) (auto intro!: registry_rules)

lemma registry_chat_step: "pres same_registry (chat_step k u file_obj)"
  unfolding chat_step_def Let_def
  by (auto intro!: registry_rules split: prod.splits)

lemma registry_chat_loop: "same_registry w (snd (chat_loop k u file_obj w))"
proof (induction k u file_obj w rule: chat_loop.induct)
  case (1 k u file_obj w)
  obtain a w1 where step: "chat_step k u file_obj w = (a, w1)"
    by (cases "chat_step k u file_obj w")
  have q: "same_registry w w1"
    using registry_chat_step step by (rule presD)
  show ?case
  proof (cases a)
    case (Chat_again rest)
    have "same_registry w1 (snd (chat_loop k u rest w1))"
      using "1.IH" [OF step [symmetric] Chat_again] .
    with q show ?thesis
      using step Chat_again by (subst chat_loop.simps) (auto intro: same_registry_trans)
  next
    case (Chat_left x)
    with q step show ?thesis by (subst chat_loop.simps) simp
  qed
qed

lemma registry_enter_chat:
  "clients (snd (enter_chat k u w)) = clients w @ [\<lparr>conn = k, username = u\<rparr>]"
proof -
  let ?rest = "andthen (send_line k ''--- Recent messages ---'')
    (bind (get_recent_messages 20) (\<lambda>rows.
     andthen (replay k rows)
    (andthen (send_line k ''--- End of history ---'')
    (andthen (broadcast_message ''SYSTEM'' (u @ '' has joined the chat.''))
    (andthen (send_line k ''You are now in the chatroom. Type messages and press Enter.'')
             (send_line k ''Type '/quit' to exit.''))))))"
  have "pres same_registry ?rest"
    by (intro registry_rules registry_replay allI)
  then have "clients (snd (?rest w1)) = clients w1" for w1
    by (simp add: pres_def same_registry_def)
  then show ?thesis
    by (simp add: enter_chat_def andthen_def bind_def append_client_def)
qed

lemma try_block_registry:
  assumes "try_block kdf k file_obj w = ((x, un), w1)"
  shows "clients w1 = clients w \<or>
    (\<exists>u. un = Some u \<and> clients w1 = clients w @ [\<lparr>conn = k, username = u\<rparr>])"
proof -
  let ?hello = "send_line k ''Welcome to the chat server!''"
  let ?ask = "send_line k ''Type 'register' to create an account or 'login' to sign in:''"
  obtain r1 wa where a: "?hello w = (r1, wa)" by (cases "?hello w")
  obtain r2 wb where b: "?ask wa = (r2, wb)" by (cases "?ask wa")
  obtain au wc where c: "auth_loop kdf k file_obj wb = (au, wc)"
    by (cases "auth_loop kdf k file_obj wb")
  have qa: "clients wa = clients w"
    using presD [OF registry_send_line a] by (simp add: same_registry_def)
  have qb: "clients wb = clients w"
    using presD [OF registry_send_line b] qa by (simp add: same_registry_def)
  have qc: "clients wc = clients w"
    using auth_loop_quiet [of k wb kdf file_obj] c qb by (simp add: quiet_def)
  show ?thesis
  proof (cases r1)
    case (Inl e)
    then show ?thesis
      using assms a qa by (auto simp: try_block_def attempt_def Let_def)
  next
    case r1: (Inr u1)
    show ?thesis
    proof (cases r2)
      case (Inl e)
      then show ?thesis
        using assms a b r1 qb by (auto simp: try_block_def attempt_def Let_def)
    next
      case r2: (Inr u2)
      show ?thesis
      proof (cases au)
        case (Again rest)
        then show ?thesis
          using assms a b c r1 r2 qc by (auto simp: try_block_def attempt_def Let_def)
      next
        case (Left y un')
        then show ?thesis
          using assms a b c r1 r2 qc by (auto simp: try_block_def attempt_def Let_def)
      next
        case (Authenticated uname rest)
        obtain r3 wd where d: "enter_chat k uname wc = (r3, wd)" by (cases "enter_chat k uname wc")
        have gd: "clients wd = clients w @ [\<lparr>conn = k, username = uname\<rparr>]"
          using registry_enter_chat [of k uname wc] d qc by simp
        have ge: "clients (snd (chat_loop k uname rest wd)) = clients wd"
          using registry_chat_loop [of wd k uname rest] by (simp add: same_registry_def)
        show ?thesis
          using assms a b c d r1 r2 Authenticated gd ge
          by (auto simp: try_block_def attempt_def Let_def split: sum.splits prod.splits)
      qed
    qed
  qed
qed

lemma handle_client_registry:
  assumes "k \<notin> conn ` set (clients w)"
  shows "clients (snd (handle_client kdf k file_obj w)) = clients w"
proof -
  obtain x un w1 where t: "try_block kdf k file_obj (makefile k w) = ((x, un), w1)"
    by (cases "try_block kdf k file_obj (makefile k w)") auto
  have keep: "filter (\<lambda>c. conn c \<noteq> k) (clients w) = clients w"
    using assms by (auto simp: filter_id_conv)
  show ?thesis
  proof (cases un)
    case None
    with try_block_registry [OF t] have "clients w1 = clients w"
      by (auto simp: makefile_fields)
    then show ?thesis
      using None by (simp add: handle_client_eq [OF t] finally_block_None drop_file_fields)
  next
    case (Some u)
    with try_block_registry [OF t]
    have "filter (\<lambda>c. conn c \<noteq> k) (clients w1) = clients w"
      using keep by (auto simp: makefile_fields)
    then show ?thesis
      using Some by (simp add: handle_client_eq [OF t] finally_block_Some drop_file_fields)
  qed
qed

lemma registry_distinct:
  assumes "distinct (map conn (clients w))" and "k \<notin> conn ` set (clients w)"
    and "try_block kdf k file_obj (makefile k w) = ((x, un), w1)"
  shows "distinct (map conn (clients w1)) \<and>
    distinct (map conn (clients (snd (handle_client kdf k file_obj w))))"
proof -
  from try_block_registry [OF assms(3)]
  have "distinct (map conn (clients w1))"
    using assms(1,2) by (auto simp: makefile_fields)
  moreover have "clients (snd (handle_client kdf k file_obj w)) = clients w"
    using assms(2) by (rule handle_client_registry)
  ultimately show ?thesis using assms(1) by simp
qed

lemma new_events_trans:
  assumes "grows P a b" "grows Q b c"
  shows "new_events a c = new_events a b @ new_events b c"
proof -
  from assms obtain es fs where "log b = log a @ es" "log c = log b @ fs"
    by (auto simp: grows_iff)
  then show ?thesis by (simp add: new_events_def)
qed

lemma new_events_same: "new_events w w = []"
  by (simp add: new_events_def)

lemma auth_step_greets:
  assumes "auth_step kdf k file_obj w = (a, w')"
  shows "case a of
      Again rest \<Rightarrow> \<not> greeted k (new_events w w')
    | Authenticated u rest \<Rightarrow> Send_line k (login_line u) \<in> set (new_events w w')
    | Left x None \<Rightarrow> \<not> greeted k (new_events w w')
    | Left x (Some u) \<Rightarrow> Send_line k (login_line u) \<in> set (new_events w w')"
  using assms
  by (auto simp: auth_step_def attempt_def readline_def Let_def send_line_eq create_user_eq
        authenticate_user_eq new_events_def greeted_def login_line_def
      split: list.splits sum.splits prod.splits if_splits option.splits)


lemma greeted_append: "greeted k (es @ fs) \<longleftrightarrow> greeted k es \<or> greeted k fs"
  by (auto simp: greeted_def)

lemma greeted_member: "Send_line k (login_line u) \<in> set es \<Longrightarrow> greeted k es"
  by (auto simp: greeted_def)

lemma auth_loop_greets:
  assumes "auth_loop kdf k file_obj w = (a, w')"
  shows "case a of
      Again rest \<Rightarrow> True
    | Authenticated u rest \<Rightarrow> Send_line k (login_line u) \<in> set (new_events w w')
    | Left x None \<Rightarrow> \<not> greeted k (new_events w w')
    | Left x (Some u) \<Rightarrow> Send_line k (login_line u) \<in> set (new_events w w')"
  using assms
proof (induction kdf k file_obj w rule: auth_loop.induct)
  case (1 kdf k file_obj w)
  obtain b w1 where step: "auth_step kdf k file_obj w = (b, w1)"
    by (cases "auth_step kdf k file_obj w")
  note g = auth_step_greets [OF step]
  show ?case
  proof (cases b)
    case (Again rest)
    have loop: "auth_loop kdf k rest w1 = (a, w')"
      using "1.prems" step Again by (subst (asm) auth_loop.simps) simp
    have q1: "quiet k w w1" using quiet_auth_step step by (rule presD)
    have q2: "quiet k w1 w'" using auth_loop_quiet [of k w1 kdf rest] loop by simp
    have n: "new_events w w' = new_events w w1 @ new_events w1 w'"
      using q1 q2 by (auto simp: quiet_def intro: new_events_trans)
    have none: "\<not> greeted k (new_events w w1)" using g Again by simp
    from "1.IH" [OF step [symmetric] Again loop] none show ?thesis
      by (auto simp: n greeted_append split: auth.splits option.splits)
  next
    case (Authenticated u rest)
    then have "a = Authenticated u rest" "w' = w1"
      using "1.prems" step by (subst (asm) auth_loop.simps, simp)+
    then show ?thesis using g Authenticated by simp
  next
    case (Left x un)
    then have "a = Left x un" "w' = w1"
      using "1.prems" step by (subst (asm) auth_loop.simps, simp)+
    then show ?thesis using g Left by simp
  qed
qed

lemma try_block_greets:
  assumes "try_block kdf k file_obj w = ((x, un), w1)"
  shows "case un of
      None \<Rightarrow> \<not> greeted k (new_events w w1)
    | Some u \<Rightarrow> Send_line k (login_line u) \<in> set (new_events w w1)"
proof -
  let ?hello = "send_line k ''Welcome to the chat server!''"
  let ?ask = "send_line k ''Type 'register' to create an account or 'login' to sign in:''"
  obtain r1 wa where a: "?hello w = (r1, wa)" by (cases "?hello w")
  obtain r2 wb where b: "?ask wa = (r2, wb)" by (cases "?ask wa")
  obtain au wc where c: "auth_loop kdf k file_obj wb = (au, wc)"
    by (cases "auth_loop kdf k file_obj wb")
  have qa: "quiet k w wa" using quiet_send_line a by (rule presD)
  have qab: "quiet k wa wb" using quiet_send_line b by (rule presD)
  have qbc: "quiet k wb wc" using auth_loop_quiet [of k wb kdf file_obj] c by simp
  have na: "new_events w wa = [Send_line k ''Welcome to the chat server!'']"
    using a by (auto simp: send_line_eq new_events_def)
  have nb: "new_events wa wb =
      [Send_line k ''Type 'register' to create an account or 'login' to sign in:'']"
    using b by (auto simp: send_line_eq new_events_def)
  have qb: "quiet k w wb" using qa qab by (rule quiet_trans)
  have nab: "new_events w wb = new_events w wa @ new_events wa wb"
    using qa qab by (auto simp: quiet_def intro: new_events_trans)
  have nac: "new_events w wc = new_events w wb @ new_events wb wc"
    using qb qbc by (auto simp: quiet_def intro: new_events_trans)
  have ga: "\<not> greeted k (new_events w wa)"
    by (simp add: na greeted_def login_line_def)
  have gb: "\<not> greeted k (new_events w wb)"
    by (simp add: nab na nb greeted_def login_line_def)
  note gc = auth_loop_greets [OF c]
  note ex = auth_loop_exit [OF c]
  show ?thesis
  proof (cases r1)
    case (Inl e)
    then show ?thesis
      using assms a ga by (auto simp: try_block_def attempt_def Let_def)
  next
    case r1: (Inr u1)
    show ?thesis
    proof (cases r2)
      case (Inl e)
      then show ?thesis
        using assms a b r1 gb by (auto simp: try_block_def attempt_def Let_def)
    next
      case r2: (Inr u2)
      show ?thesis
      proof (cases au)
        case (Again rest)
        with ex show ?thesis by simp
      next
        case (Left y un')
        then have eq: "un = un'" "w1 = wc"
          using assms a b c r1 r2 by (auto simp: try_block_def attempt_def Let_def)
        show ?thesis
          unfolding eq using gb gc Left
          by (auto simp: nac greeted_append split: option.splits)
      next
        case (Authenticated uname rest)
        obtain r3 wd where d: "enter_chat k uname wc = (r3, wd)" by (cases "enter_chat k uname wc")
        have gcd: "grows no_close wc wd"
          using presD [OF calm_enter_chat d] by (rule chat_event_no_close)
        have gde: "grows no_close wd (snd (chat_loop k uname rest wd))"
          using chat_loop_calm [of k uname wd rest] by (blast intro: chat_event_no_close)
        have gwc: "grows no_close w wc"
          using quiet_no_close [OF quiet_trans [OF qb qbc]] .
        have in_c: "Send_line k (login_line uname) \<in> set (new_events w wc)"
          using gc Authenticated by (simp add: nac)
        have nd: "new_events w wd = new_events w wc @ new_events wc wd"
          using gwc gcd by (rule new_events_trans)
        have ne: "new_events w (snd (chat_loop k uname rest wd)) =
            new_events w wd @ new_events wd (snd (chat_loop k uname rest wd))"
          using grows_trans [OF gwc gcd] gde by (rule new_events_trans)
        have eq: "un = Some uname" "w1 = wd \<or> w1 = snd (chat_loop k uname rest wd)"
          using assms a b c d r1 r2 Authenticated
          by (auto simp: try_block_def attempt_def Let_def split: sum.splits prod.splits)
        have "Send_line k (login_line uname) \<in> set (new_events w w1)"
          using eq(2) in_c by (auto simp: nd ne)
        then show ?thesis
          by (simp add: eq(1))
      qed
    qed
  qed
qed

text \<open>
  C7 (as amended). In every run of the handler, with \<open>un\<close> the value of \<^verbatim>\<open>username\<close>
  when the \<^verbatim>\<open>try\<close> block is left: a handler left by \<^verbatim>\<open>return\<close> (the end of the
  stream during authentication) has \<^verbatim>\<open>username\<close> unset. With \<^verbatim>\<open>username\<close> unset
  no login was answered, the handler returns, the registry and the messages are as
  before, no socket but its own has changed, and all it did was \<^verbatim>\<open>send_line\<close> on its
  own connection and then \<^verbatim>\<open>close\<close>. With \<^verbatim>\<open>username\<close> set to \<open>u\<close> a login of \<open>u\<close>
  was answered, and the \<^verbatim>\<open>finally\<close> block takes the entries of the connection out of
  the registry and broadcasts the notice \<open>u has left the chat.\<close> of sender \<open>SYSTEM\<close>:
  when the store takes it, it is one new row, the line \<open>[SYSTEM] u has left the chat.\<close>
  is sent once to each session that is still registered and has arrived at each of
  them whose socket takes it, nothing is sent to the connection itself, and then the
  connection is closed; when the store refuses it, nothing is stored and nothing is
  sent. An entry of the connection is
  added to the registry only with \<^verbatim>\<open>username\<close> set to its name. A handler that returns
  has closed its connection; \<^verbatim>\<open>close\<close> is the last call of a run, and when
  \<^verbatim>\<open>username\<close> is set the removal from the registry comes before it and the registry
  has no entry of the connection.
\<close>

theorem handle_client_teardown:
  assumes "try_block kdf k file_obj (makefile k w) = ((x, un), w1)"
      and "handle_client kdf k file_obj w = (r, w')"
  shows "(x = Returned \<longrightarrow> un = None) \<and>
    (un = None \<longrightarrow> \<not> greeted k (new_events w w1) \<and>
       r = Inr () \<and> clients w' = clients w \<and> messages w' = messages w \<and>
       (\<forall>j. j \<noteq> k \<longrightarrow> socks w' j = socks w j) \<and>
       (\<exists>es. new_events w w' = es @ [Close k] \<and> list_all (only_sends k) es)) \<and>
    (\<forall>u. un = Some u \<longrightarrow>
       Send_line k (login_line u) \<in> set (new_events w w1) \<and>
       clients w' = filter (\<lambda>c. conn c \<noteq> k) (clients w1) \<and>
       new_events w1 w' =
         Remove_client k # Save_message ''SYSTEM'' (u @ '' has left the chat.'') #
           (if faults w1 (txn w1) then []
            else map (\<lambda>cl. Send_line (conn cl) (''[SYSTEM] '' @ u @ '' has left the chat.''))
                   (filter (\<lambda>c. conn c \<noteq> k) (clients w1)) @ [Close k]) \<and>
       (faults w1 (txn w1) \<longrightarrow>
          r = Inl OperationalError \<and> messages w' = messages w1 \<and>
          (\<forall>j. outgoing (socks w' j) = outgoing (socks w1 j))) \<and>
       (\<not> faults w1 (txn w1) \<longrightarrow>
          r = Inr () \<and>
          messages w' = messages w1 @
            [(seq w1 + 1, ''SYSTEM'', u @ '' has left the chat.'', clock w1 (ticks w1))] \<and>
          (\<forall>j. j \<noteq> k \<longrightarrow> socks w' j =
             deliver (filter (\<lambda>c. conn c \<noteq> k) (clients w1))
               (wire (''[SYSTEM] '' @ u @ '' has left the chat.'')) (socks w1) j) \<and>
          outgoing (socks w' k) = outgoing (socks w1 k) \<and>
          (distinct (map conn (clients w1)) \<longrightarrow>
             (\<forall>cl \<in> set (clients w1). conn cl \<noteq> k \<and>
                 accepts (socks w1 (conn cl)) (wire (''[SYSTEM] '' @ u @ '' has left the chat.''))
               \<longrightarrow> outgoing (socks w' (conn cl)) =
                     outgoing (socks w1 (conn cl)) @
                       wire (''[SYSTEM] '' @ u @ '' has left the chat.''))))) \<and>
    (\<forall>v. Append_client k v \<in> set (new_events w w1) \<longrightarrow> un = Some v) \<and>
    (r = Inr () \<longrightarrow> Close k \<in> set (new_events w w') \<and> closed (socks w' k)) \<and>
    (Close k \<in> set (new_events w w') \<longrightarrow>
       (\<exists>es. new_events w w' = es @ [Close k] \<and> list_all no_close es \<and>
          (un \<noteq> None \<longrightarrow> Remove_client k \<in> set es \<and> k \<notin> conn ` set (clients w'))))"
proof -
  let ?w0 = "makefile k w"
  from try_block_cases [OF assms(1)]
  have g: "grows no_close ?w0 w1" and q: "un = None \<longrightarrow> quiet k ?w0 w1"
    and ret: "x = Returned \<longrightarrow> un = None"
    and ch: "\<forall>u. un = Some u \<longrightarrow> grows (chat_event k u) ?w0 w1"
    by simp_all
  have ne0: "new_events ?w0 v = new_events w v" for v
    by (simp add: new_events_def makefile_fields)
  from g obtain es where es: "log w1 = log w @ es" "list_all no_close es"
    by (auto simp: grows_iff makefile_fields)
  have r: "r = fst (finally_block k un w1)"
    and w': "w' = drop_file k (snd (finally_block k un w1))"
    using assms(2) by (simp_all add: handle_client_eq [OF assms(1)])
  note greets = try_block_greets [OF assms(1), unfolded ne0]
  have reg: "un = Some v" if "Append_client k v \<in> set (new_events w w1)" for v
  proof (cases un)
    case None
    with q have "grows (only_sends k) ?w0 w1" by (simp add: quiet_def)
    then have "only_sends k (Append_client k v)"
      using that grows_member [of "only_sends k" ?w0 w1 "Append_client k v"]
      by (simp add: ne0)
    then show ?thesis by simp
  next
    case (Some u)
    with ch have "grows (chat_event k u) ?w0 w1" by simp
    then have "chat_event k u (Append_client k v)"
      using that grows_member [of "chat_event k u" ?w0 w1 "Append_client k v"]
      by (simp add: ne0)
    then show ?thesis using Some by simp
  qed
  show ?thesis
  proof (cases un)
    case None
    with q have "quiet k ?w0 w1" by simp
    then obtain ss where ss: "log w1 = log w @ ss" "list_all (only_sends k) ss"
      and same: "clients w1 = clients w" "messages w1 = messages w"
        "\<forall>j. j \<noteq> k \<longrightarrow> socks w1 j = socks w j"
      by (auto simp: quiet_def grows_iff makefile_fields)
    have n: "new_events w w' = ss @ [Close k]"
      by (rule new_events_append) (simp add: w' None finally_block_None drop_file_fields ss)
    have "ss = es" using ss(1) es(1) by simp
    then have nc: "list_all no_close ss"
      using es(2) by simp
    have 1: "\<not> greeted k (new_events w w1)"
      using greets None by simp
    have 2: "r = Inr ()" "clients w' = clients w" "messages w' = messages w"
      "\<forall>j. j \<noteq> k \<longrightarrow> socks w' j = socks w j" "closed (socks w' k)"
      using same by (simp_all add: r w' None finally_block_None drop_file_fields socket_close_fields)
    have 3: "\<exists>es. new_events w w' = es @ [Close k] \<and> list_all (only_sends k) es"
      using n ss(2) by blast
    have 4: "\<exists>es. new_events w w' = es @ [Close k] \<and> list_all no_close es \<and>
          (un \<noteq> None \<longrightarrow> Remove_client k \<in> set es \<and> k \<notin> conn ` set (clients w'))"
      using n nc None by blast
    have 5: "Close k \<in> set (new_events w w')"
      by (simp add: n)
    have 6: "\<forall>v. Append_client k v \<in> set (new_events w w1) \<longrightarrow> un = Some v"
      using reg by blast
    show ?thesis
      using None ret 1 2 3 4 5 6 by simp
  next
    case (Some u)
    note f = finally_block_Some [of k u w1]
    let ?note = "Save_message ''SYSTEM'' (u @ '' has left the chat.'')"
    let ?line = "''[SYSTEM] '' @ u @ '' has left the chat.''"
    let ?cs = "filter (\<lambda>c. conn c \<noteq> k) (clients w1)"
    let ?sends = "map (\<lambda>cl. Send_line (conn cl) ?line) ?cs"
    have lg: "log w' = log w1 @ Remove_client k # ?note #
          (if faults w1 (txn w1) then [] else ?sends @ [Close k])"
      by (simp add: w' Some f drop_file_fields)
    have n1: "new_events w1 w' = Remove_client k # ?note #
          (if faults w1 (txn w1) then [] else ?sends @ [Close k])"
      by (rule new_events_append) (rule lg)
    have n: "new_events w w' = es @ Remove_client k # ?note #
          (if faults w1 (txn w1) then [] else ?sends @ [Close k])"
      by (rule new_events_append) (simp add: lg es)
    have cl: "clients w' = ?cs"
      by (simp add: w' Some f drop_file_fields)
    have unreg: "k \<notin> conn ` set (clients w')"
      by (auto simp: cl)
    have login: "Send_line k (login_line u) \<in> set (new_events w w1)"
      using greets Some by simp
    have noclose: "Close k \<notin> set es"
      using es(2) by (auto simp: list_all_iff)
    have down: "r = Inl OperationalError \<and> messages w' = messages w1 \<and>
          (\<forall>j. outgoing (socks w' j) = outgoing (socks w1 j))" if "faults w1 (txn w1)"
      using that by (simp add: r w' Some f drop_file_fields)
    have up: "r = Inr () \<and>
          messages w' = messages w1 @
            [(seq w1 + 1, ''SYSTEM'', u @ '' has left the chat.'', clock w1 (ticks w1))] \<and>
          (\<forall>j. j \<noteq> k \<longrightarrow> socks w' j = deliver ?cs (wire ?line) (socks w1) j) \<and>
          outgoing (socks w' k) = outgoing (socks w1 k) \<and>
          closed (socks w' k)" if "\<not> faults w1 (txn w1)"
    proof -
      have "k \<notin> conn ` set ?cs" by auto
      then have "deliver ?cs (wire ?line) (socks w1) k = socks w1 k"
        by (rule deliver_other)
      then show ?thesis
        using that by (simp add: r w' Some f drop_file_fields socket_close_fields)
    qed
    have arrived: "outgoing (socks w' (conn c)) = outgoing (socks w1 (conn c)) @ wire ?line"
      if "\<not> faults w1 (txn w1)" "distinct (map conn (clients w1))" "c \<in> set (clients w1)"
        "conn c \<noteq> k" "accepts (socks w1 (conn c)) (wire ?line)" for c
    proof -
      have "distinct (map conn ?cs)"
        using that(2) by (rule distinct_map_filter)
      moreover have "c \<in> set ?cs" using that(3,4) by simp
      ultimately have "deliver ?cs (wire ?line) (socks w1) (conn c) =
          sent (socks w1 (conn c)) (wire ?line)"
        by (rule deliver_once)
      moreover have "socks w' (conn c) = deliver ?cs (wire ?line) (socks w1) (conn c)"
        using up [OF that(1)] that(4) by simp
      ultimately show ?thesis
        using that(5) by (simp add: sent_accepts)
    qed
    have last: "\<exists>es. new_events w w' = es @ [Close k] \<and> list_all no_close es \<and>
          (un \<noteq> None \<longrightarrow> Remove_client k \<in> set es \<and> k \<notin> conn ` set (clients w'))"
      if "\<not> faults w1 (txn w1)"
    proof -
      let ?es = "es @ Remove_client k # ?note # ?sends"
      have "new_events w w' = ?es @ [Close k]" using that by (simp add: n)
      moreover have "list_all no_close ?es" using es(2) by (simp add: list_all_sends)
      moreover have "Remove_client k \<in> set ?es" by simp
      ultimately show ?thesis using unreg by blast
    qed
    have closes: "Close k \<in> set (new_events w w') \<longleftrightarrow> \<not> faults w1 (txn w1)"
      using noclose by (auto simp: n)
    have A: "x = Returned \<longrightarrow> un = None" by (rule ret)
    have B: "un = None \<longrightarrow> \<not> greeted k (new_events w w1) \<and>
       r = Inr () \<and> clients w' = clients w \<and> messages w' = messages w \<and>
       (\<forall>j. j \<noteq> k \<longrightarrow> socks w' j = socks w j) \<and>
       (\<exists>es. new_events w w' = es @ [Close k] \<and> list_all (only_sends k) es)"
      using Some by simp
    have C: "\<forall>v. un = Some v \<longrightarrow>
       Send_line k (login_line v) \<in> set (new_events w w1) \<and>
       clients w' = filter (\<lambda>c. conn c \<noteq> k) (clients w1) \<and>
       new_events w1 w' =
         Remove_client k # Save_message ''SYSTEM'' (v @ '' has left the chat.'') #
           (if faults w1 (txn w1) then []
            else map (\<lambda>cl. Send_line (conn cl) (''[SYSTEM] '' @ v @ '' has left the chat.''))
                   (filter (\<lambda>c. conn c \<noteq> k) (clients w1)) @ [Close k]) \<and>
       (faults w1 (txn w1) \<longrightarrow>
          r = Inl OperationalError \<and> messages w' = messages w1 \<and>
          (\<forall>j. outgoing (socks w' j) = outgoing (socks w1 j))) \<and>
       (\<not> faults w1 (txn w1) \<longrightarrow>
          r = Inr () \<and>
          messages w' = messages w1 @
            [(seq w1 + 1, ''SYSTEM'', v @ '' has left the chat.'', clock w1 (ticks w1))] \<and>
          (\<forall>j. j \<noteq> k \<longrightarrow> socks w' j =
             deliver (filter (\<lambda>c. conn c \<noteq> k) (clients w1))
               (wire (''[SYSTEM] '' @ v @ '' has left the chat.'')) (socks w1) j) \<and>
          outgoing (socks w' k) = outgoing (socks w1 k) \<and>
          (distinct (map conn (clients w1)) \<longrightarrow>
             (\<forall>cl \<in> set (clients w1). conn cl \<noteq> k \<and>
                 accepts (socks w1 (conn cl)) (wire (''[SYSTEM] '' @ v @ '' has left the chat.''))
               \<longrightarrow> outgoing (socks w' (conn cl)) =
                     outgoing (socks w1 (conn cl)) @
                       wire (''[SYSTEM] '' @ v @ '' has left the chat.''))))"
    proof (intro allI impI)
      fix v assume "un = Some v"
      then have v: "v = u" using Some by simp
      show "Send_line k (login_line v) \<in> set (new_events w w1) \<and>
       clients w' = filter (\<lambda>c. conn c \<noteq> k) (clients w1) \<and>
       new_events w1 w' =
         Remove_client k # Save_message ''SYSTEM'' (v @ '' has left the chat.'') #
           (if faults w1 (txn w1) then []
            else map (\<lambda>cl. Send_line (conn cl) (''[SYSTEM] '' @ v @ '' has left the chat.''))
                   (filter (\<lambda>c. conn c \<noteq> k) (clients w1)) @ [Close k]) \<and>
       (faults w1 (txn w1) \<longrightarrow>
          r = Inl OperationalError \<and> messages w' = messages w1 \<and>
          (\<forall>j. outgoing (socks w' j) = outgoing (socks w1 j))) \<and>
       (\<not> faults w1 (txn w1) \<longrightarrow>
          r = Inr () \<and>
          messages w' = messages w1 @
            [(seq w1 + 1, ''SYSTEM'', v @ '' has left the chat.'', clock w1 (ticks w1))] \<and>
          (\<forall>j. j \<noteq> k \<longrightarrow> socks w' j =
             deliver (filter (\<lambda>c. conn c \<noteq> k) (clients w1))
               (wire (''[SYSTEM] '' @ v @ '' has left the chat.'')) (socks w1) j) \<and>
          outgoing (socks w' k) = outgoing (socks w1 k) \<and>
          (distinct (map conn (clients w1)) \<longrightarrow>
             (\<forall>cl \<in> set (clients w1). conn cl \<noteq> k \<and>
                 accepts (socks w1 (conn cl)) (wire (''[SYSTEM] '' @ v @ '' has left the chat.''))
               \<longrightarrow> outgoing (socks w' (conn cl)) =
                     outgoing (socks w1 (conn cl)) @
                       wire (''[SYSTEM] '' @ v @ '' has left the chat.''))))"
        unfolding v using login cl n1 down up arrived by blast
    qed
    have D: "\<forall>v. Append_client k v \<in> set (new_events w w1) \<longrightarrow> un = Some v"
      using reg by blast
    have E: "r = Inr () \<longrightarrow> Close k \<in> set (new_events w w') \<and> closed (socks w' k)"
      using down up closes by (cases "faults w1 (txn w1)") simp_all
    have F: "Close k \<in> set (new_events w w') \<longrightarrow>
       (\<exists>es. new_events w w' = es @ [Close k] \<and> list_all no_close es \<and>
          (un \<noteq> None \<longrightarrow> Remove_client k \<in> set es \<and> k \<notin> conn ` set (clients w')))"
      using closes last by blast
    show ?thesis
      using A B C D E F by (intro conjI)
  qed
qed

subsection \<open>Runs of the handler\<close>

lemma accounts_eq:
  "accounts = boot\<lparr>draws := 1, txn := 1, users := [stored toy_kdf ''alice'' ''secret'' boot]\<rparr>"
  by (simp add: accounts_def one_registration_def create_user_eq boot_def)

lemmas eval_simps = try_block_def attempt_def auth_step_def readline_def strip_def lower_def
  py_space_def py_space2_def py_space3_def send_line_eq authenticate_user_eq Let_def
  verify_password_hex stored_def toy_kdf_def char_of_eq_iff handle_client_def makefile_def
  drop_file_def decref_socketios_def socket_close_def accepts_def sent_def fresh_socket_def
  boot_def enter_chat_def andthen_def bind_def return_def append_client_def
  get_recent_messages_eq sql_limit_def broadcast_message_eq chat_step_def finally_block_def
  remove_client_def close_def auth_loop.simps chat_loop.simps accounts_eq lobby_def

theorem handle_client_teardown_witness:
  "fst (try_block toy_kdf 1 hangs_up (makefile 1 accounts)) = (Returned, None) \<and>
   fst (handle_client toy_kdf 1 hangs_up accounts) = Inr () \<and>
   new_events accounts (snd (handle_client toy_kdf 1 hangs_up accounts)) =
     [Send_line 1 ''Welcome to the chat server!'',
      Send_line 1 ''Type 'register' to create an account or 'login' to sign in:'',
      Send_line 1 ''Username:'', Send_line 1 ''Password:'', Close 1] \<and>
   clients (snd (handle_client toy_kdf 1 hangs_up accounts)) = [] \<and>
   messages (snd (handle_client toy_kdf 1 hangs_up accounts)) = [] \<and>
   fst (try_block toy_kdf 1 visit (makefile 1 lobby)) = (Finished, Some ''alice'') \<and>
   Append_client 1 ''alice'' \<in>
     set (new_events lobby (snd (try_block toy_kdf 1 visit (makefile 1 lobby)))) \<and>
   fst (handle_client toy_kdf 1 visit lobby) = Inr () \<and>
   new_events (snd (try_block toy_kdf 1 visit (makefile 1 lobby)))
       (snd (handle_client toy_kdf 1 visit lobby)) =
     [Remove_client 1, Save_message ''SYSTEM'' ''alice has left the chat.'',
      Send_line 2 ''[SYSTEM] alice has left the chat.'', Close 1] \<and>
   clients (snd (handle_client toy_kdf 1 visit lobby)) = [\<lparr>conn = 2, username = ''bob''\<rparr>] \<and>
   messages (snd (handle_client toy_kdf 1 visit lobby)) =
     [(1, ''SYSTEM'', ''alice has joined the chat.'', ''2025-01-01 12:00:00''),
      (2, ''alice'', ''hello'', ''2025-01-01 12:00:00''),
      (3, ''SYSTEM'', ''alice has left the chat.'', ''2025-01-01 12:00:00'')] \<and>
   outgoing (socks (snd (handle_client toy_kdf 1 visit lobby)) 2) =
     wire ''[SYSTEM] alice has joined the chat.'' @ wire ''[alice] hello'' @
     wire ''[SYSTEM] alice has left the chat.'' \<and>
   closed (socks (snd (handle_client toy_kdf 1 visit lobby)) 1)"
proof -
  let ?v1 = "snd (try_block toy_kdf 1 hangs_up (makefile 1 accounts))"
  let ?v' = "snd (handle_client toy_kdf 1 hangs_up accounts)"
  let ?w1 = "snd (try_block toy_kdf 1 visit (makefile 1 lobby))"
  let ?w' = "snd (handle_client toy_kdf 1 visit lobby)"
  have a1: "fst (try_block toy_kdf 1 hangs_up (makefile 1 accounts)) = (Returned, None)"
    by (simp add: hangs_up_def eval_simps)
  have a2: "try_block toy_kdf 1 hangs_up (makefile 1 accounts) = ((Returned, None), ?v1)"
    using a1 by (simp add: prod_eq_iff)
  have a3: "handle_client toy_kdf 1 hangs_up accounts =
      (fst (handle_client toy_kdf 1 hangs_up accounts), ?v')"
    by simp
  have a4: "new_events accounts ?v' =
     [Send_line 1 ''Welcome to the chat server!'',
      Send_line 1 ''Type 'register' to create an account or 'login' to sign in:'',
      Send_line 1 ''Username:'', Send_line 1 ''Password:'', Close 1]"
    by (simp add: hangs_up_def new_events_def eval_simps)
  have a5: "clients accounts = []" "messages accounts = []"
    by (simp_all add: accounts_eq boot_def)
  have b1: "fst (try_block toy_kdf 1 visit (makefile 1 lobby)) = (Finished, Some ''alice'')"
    by (simp add: visit_def eval_simps)
  have b2: "try_block toy_kdf 1 visit (makefile 1 lobby) = ((Finished, Some ''alice''), ?w1)"
    using b1 by (simp add: prod_eq_iff)
  have b3: "handle_client toy_kdf 1 visit lobby = (fst (handle_client toy_kdf 1 visit lobby), ?w')"
    by simp
  have b4: "\<not> faults ?w1 (txn ?w1)" "seq ?w1 = 2" "clock ?w1 (ticks ?w1) = ''2025-01-01 12:00:00''"
    by (simp_all add: visit_def eval_simps)
  have b5: "clients ?w1 = [\<lparr>conn = 2, username = ''bob''\<rparr>, \<lparr>conn = 1, username = ''alice''\<rparr>]"
    by (simp add: visit_def eval_simps)
  have b6: "messages ?w1 =
     [(1, ''SYSTEM'', ''alice has joined the chat.'', ''2025-01-01 12:00:00''),
      (2, ''alice'', ''hello'', ''2025-01-01 12:00:00'')]"
    by (simp add: visit_def eval_simps)
  have b7: "outgoing (socks ?w1 2) =
      wire ''[SYSTEM] alice has joined the chat.'' @ wire ''[alice] hello''"
    "accepts (socks ?w1 2) (wire ''[SYSTEM] alice has left the chat.'')"
    by (simp_all add: visit_def eval_simps)
  have b8: "Append_client 1 ''alice'' \<in> set (new_events lobby ?w1)"
    by (simp add: visit_def new_events_def eval_simps)
  note silent = handle_client_teardown [OF a2 a3]
  note loud = handle_client_teardown [OF b2 b3]
  have c1: "fst (handle_client toy_kdf 1 hangs_up accounts) = Inr ()"
    "clients ?v' = []" "messages ?v' = []"
    using silent a5 by simp_all
  have c2: "fst (handle_client toy_kdf 1 visit lobby) = Inr ()"
    "clients ?w' = [\<lparr>conn = 2, username = ''bob''\<rparr>]"
    "messages ?w' = messages ?w1 @
       [(3, ''SYSTEM'', ''alice has left the chat.'', ''2025-01-01 12:00:00'')]"
    "new_events ?w1 ?w' =
     [Remove_client 1, Save_message ''SYSTEM'' ''alice has left the chat.'',
      Send_line 2 ''[SYSTEM] alice has left the chat.'', Close 1]"
    using loud b4 b5 by simp_all
  have c3: "outgoing (socks ?w' 2) =
      outgoing (socks ?w1 2) @ wire ''[SYSTEM] alice has left the chat.''"
    using loud b4 b5 b7(2) by (simp add: sent_accepts)
  have c4: "closed (socks ?w' 1)"
    using loud c2(1) by simp
  have c5: "messages ?w' =
     [(1, ''SYSTEM'', ''alice has joined the chat.'', ''2025-01-01 12:00:00''),
      (2, ''alice'', ''hello'', ''2025-01-01 12:00:00''),
      (3, ''SYSTEM'', ''alice has left the chat.'', ''2025-01-01 12:00:00'')]"
    using c2(3) b6 by simp
  have c6: "outgoing (socks ?w' 2) =
     wire ''[SYSTEM] alice has joined the chat.'' @ wire ''[alice] hello'' @
     wire ''[SYSTEM] alice has left the chat.''"
    using c3 b7(1) by simp
  show ?thesis
    using a1 a4 b1 b8 c1 c2(1,2,4) c4 c5 c6 by simp
qed

text \<open>
  C7 (as stated) fails in both directions. On a connection that breaks before the
  answer to a login can be sent, \<^verbatim>\<open>username\<close> is set and the \<^verbatim>\<open>try\<close> block is left
  by the exception: the session was never added to the registry and never joined, and
  yet its leave notice is stored and sent to the registered session. And a session
  that logged in, was registered and joined leaves without a notice when the store
  refuses the notice: nothing more is stored and nothing more is sent.
\<close>

theorem handle_client_leave_notice_mismatch:
  "fst (try_block toy_kdf 1 login_only (makefile 1 lobby_lost_peer)) =
     (Raised OSError, Some ''alice'') \<and>
   new_events lobby_lost_peer (snd (try_block toy_kdf 1 login_only (makefile 1 lobby_lost_peer))) =
     [Send_line 1 ''Welcome to the chat server!'',
      Send_line 1 ''Type 'register' to create an account or 'login' to sign in:'',
      Send_line 1 ''Username:'', Send_line 1 ''Password:'',
      Send_line 1 ''Login successful. Welcome, alice!''] \<and>
   clients (snd (try_block toy_kdf 1 login_only (makefile 1 lobby_lost_peer))) =
     [\<lparr>conn = 2, username = ''bob''\<rparr>] \<and>
   messages (snd (handle_client toy_kdf 1 login_only lobby_lost_peer)) =
     [(1, ''SYSTEM'', ''alice has left the chat.'', ''2025-01-01 12:00:00'')] \<and>
   outgoing (socks (snd (handle_client toy_kdf 1 login_only lobby_lost_peer)) 2) =
     wire ''[SYSTEM] alice has left the chat.'' \<and>
   fst (try_block toy_kdf 1 login_only (makefile 1 lobby_store_fails)) =
     (Finished, Some ''alice'') \<and>
   Append_client 1 ''alice'' \<in>
     set (new_events lobby_store_fails
            (snd (try_block toy_kdf 1 login_only (makefile 1 lobby_store_fails)))) \<and>
   fst (handle_client toy_kdf 1 login_only lobby_store_fails) = Inl OperationalError \<and>
   messages (snd (handle_client toy_kdf 1 login_only lobby_store_fails)) =
     [(1, ''SYSTEM'', ''alice has joined the chat.'', ''2025-01-01 12:00:00'')] \<and>
   outgoing (socks (snd (handle_client toy_kdf 1 login_only lobby_store_fails)) 2) =
     wire ''[SYSTEM] alice has joined the chat.''"
proof -
  have lost: "fst (try_block toy_kdf 1 login_only (makefile 1 lobby_lost_peer)) =
     (Raised OSError, Some ''alice'')"
   "new_events lobby_lost_peer (snd (try_block toy_kdf 1 login_only (makefile 1 lobby_lost_peer))) =
     [Send_line 1 ''Welcome to the chat server!'',
      Send_line 1 ''Type 'register' to create an account or 'login' to sign in:'',
      Send_line 1 ''Username:'', Send_line 1 ''Password:'',
      Send_line 1 ''Login successful. Welcome, alice!'']"
   "clients (snd (try_block toy_kdf 1 login_only (makefile 1 lobby_lost_peer))) =
     [\<lparr>conn = 2, username = ''bob''\<rparr>]"
   "messages (snd (handle_client toy_kdf 1 login_only lobby_lost_peer)) =
     [(1, ''SYSTEM'', ''alice has left the chat.'', ''2025-01-01 12:00:00'')]"
   "outgoing (socks (snd (handle_client toy_kdf 1 login_only lobby_lost_peer)) 2) =
     wire ''[SYSTEM] alice has left the chat.''"
    by (simp_all add: login_only_def lobby_lost_peer_def new_events_def wire_def encode_def
        eval_simps)
  have down: "fst (try_block toy_kdf 1 login_only (makefile 1 lobby_store_fails)) =
     (Finished, Some ''alice'')"
   "Append_client 1 ''alice'' \<in>
     set (new_events lobby_store_fails
            (snd (try_block toy_kdf 1 login_only (makefile 1 lobby_store_fails))))"
   "fst (handle_client toy_kdf 1 login_only lobby_store_fails) = Inl OperationalError"
   "messages (snd (handle_client toy_kdf 1 login_only lobby_store_fails)) =
     [(1, ''SYSTEM'', ''alice has joined the chat.'', ''2025-01-01 12:00:00'')]"
   "outgoing (socks (snd (handle_client toy_kdf 1 login_only lobby_store_fails)) 2) =
     wire ''[SYSTEM] alice has joined the chat.''"
    by (simp_all add: login_only_def lobby_store_fails_def new_events_def eval_simps)
  show ?thesis
    using lost down by (intro conjI)
qed

subsection \<open>A login with another password\<close>

text \<open>
  C5 fails on the code. HMAC fills its key up with zero bytes, so a password and the
  same password followed by a zero byte have the same derived key, whatever the digest
  and the rest of the derivation are. With the account of alice made with the password
  \<open>secret\<close>, \<^verbatim>\<open>authenticate_user\<close> returns \<^verbatim>\<open>True\<close> for the password \<open>secret\<close>
  followed by the byte 0, which is another password. A peer gets in with it: \<^verbatim>\<open>strip\<close>
  takes the end of the line away and keeps the zero byte, and the handler goes on to
  the chat with \<^verbatim>\<open>username\<close> set to alice.
\<close>

theorem authenticate_user_accepts_padded_password:
  "fst (run (pbkdf2_with digest rounds) one_registration boot) = [Inr (Flag True)] \<and>
   fst (authenticate_user (pbkdf2_with digest rounds) ''alice'' (''secret'' @ [CHR 0x00])
          (snd (run (pbkdf2_with digest rounds) one_registration boot))) = Inr True \<and>
   ''secret'' @ [CHR 0x00] \<noteq> ''secret'' \<and>
   strip (''secret'' @ [CHR 0x00, CHR 0x0A]) = ''secret'' @ [CHR 0x00] \<and>
   fst (try_block (pbkdf2_with digest rounds) 1 nul_login
          (makefile 1 (snd (run (pbkdf2_with digest rounds) one_registration boot)))) =
     (Finished, Some ''alice'')"
proof -
  note k = pbkdf2_with_zero [of digest rounds]
  have a: "fst (run (pbkdf2_with digest rounds) one_registration boot) = [Inr (Flag True)]"
    "fst (authenticate_user (pbkdf2_with digest rounds) ''alice'' (''secret'' @ [CHR 0x00])
          (snd (run (pbkdf2_with digest rounds) one_registration boot))) = Inr True"
    using k
    by (simp_all add: one_registration_def create_user_eq authenticate_user_eq boot_def stored_def
        verify_password_hex)
  have s: "strip (''secret'' @ [CHR 0x00, CHR 0x0A]) = ''secret'' @ [CHR 0x00]"
    by (simp add: strip_def py_space_def py_space2_def py_space3_def)
  have t: "fst (try_block (pbkdf2_with digest rounds) 1 nul_login
          (makefile 1 (snd (run (pbkdf2_with digest rounds) one_registration boot)))) =
     (Finished, Some ''alice'')"
    using k by (simp add: nul_login_def one_registration_def create_user_eq eval_simps)
  show ?thesis
    using a s t by simp
qed


section \<open>Notices in the history\<close>

lemma healthy_accepts: "healthy s \<Longrightarrow> accepts s data"
  by (simp add: healthy_def accepts_def)

lemma healthy_sent: "healthy s \<Longrightarrow> healthy (sent s data)"
  by (simp add: healthy_def sent_def)

lemma healthy_sent_sent: "healthy s \<Longrightarrow> sent (sent s a) b = sent s (a @ b)"
  by (simp add: healthy_def sent_def)

lemma healthy_sent_Nil: "healthy s \<Longrightarrow> sent s [] = s"
  by (simp add: healthy_def sent_def)

lemma healthy_deliver: "healthy (ss k) \<Longrightarrow> healthy (deliver cs data ss k)"
proof (induction cs arbitrary: ss)
  case Nil
  then show ?case by simp
next
  case (Cons c cs)
  have "healthy ((ss(conn c := sent (ss (conn c)) data)) k)"
    using Cons.prems by (auto simp: healthy_sent)
  then show ?case using Cons.IH by simp
qed

lemma andthen_ok: "m w = (Inr x, w1) \<Longrightarrow> andthen m n w = n w1"
  by (simp add: andthen_def bind_def)

lemma bind_ok: "m w = (Inr x, w1) \<Longrightarrow> bind m f w = f x w1"
  by (simp add: bind_def)

lemma replay_eq:
  "healthy (socks w k) \<Longrightarrow>
   replay k rows w =
     (Inr (), w\<lparr>log := log w @ map (\<lambda>row. Send_line k (history_line row)) rows,
               socks := (socks w)(k := sent (socks w k)
                 (concat (map (\<lambda>row. wire (history_line row)) rows)))\<rparr>)"
proof (induction rows arbitrary: w)
  case Nil
  then show ?case by (simp add: return_def healthy_sent_Nil)
next
  case (Cons row rows)
  obtain u content created_at where row: "row = (u, content, created_at)"
    by (cases row)
  let ?w1 = "snd (send_line k (history_line row) w)"
  have h: "healthy (socks ?w1 k)"
    using Cons.prems by (simp add: send_line_eq healthy_sent)
  have s: "send_line k (history_line row) w = (Inr (), ?w1)"
    using Cons.prems by (simp add: send_line_eq healthy_accepts)
  have "replay k (row # rows) w = andthen (send_line k (history_line row)) (replay k rows) w"
    by (simp add: row history_line_def)
  also have "\<dots> = replay k rows ?w1"
    using s by (rule andthen_ok)
  also have "\<dots> = (Inr (), ?w1\<lparr>log := log ?w1 @ map (\<lambda>row. Send_line k (history_line row)) rows,
               socks := (socks ?w1)(k := sent (socks ?w1 k)
                 (concat (map (\<lambda>row. wire (history_line row)) rows)))\<rparr>)"
    using h by (rule Cons.IH)
  finally have e: "replay k (row # rows) w =
      (Inr (), ?w1\<lparr>log := log ?w1 @ map (\<lambda>row. Send_line k (history_line row)) rows,
               socks := (socks ?w1)(k := sent (socks ?w1 k)
                 (concat (map (\<lambda>row. wire (history_line row)) rows)))\<rparr>)" .
  show ?case
    unfolding e using Cons.prems
    by (simp add: send_line_eq healthy_sent_sent fun_upd_def cong: if_cong)
qed

lemma enter_chat_eq:
  assumes "wf_ids w" "\<not> faults w (txn w)" "\<not> faults w (txn w + 1)" "healthy (socks w k)"
  shows "fst (enter_chat k u w) = Inr () \<and>
     messages (snd (enter_chat k u w)) =
       messages w @ [(seq w + 1, ''SYSTEM'', u @ '' has joined the chat.'', clock w (ticks w))] \<and>
     log (snd (enter_chat k u w)) = log w @
        [Append_client k u, Send_line k ''--- Recent messages ---''] @
        map (\<lambda>row. Send_line k (history_line row)) (newest 20 (map snd (messages w))) @
        [Send_line k ''--- End of history ---'',
         Save_message ''SYSTEM'' (u @ '' has joined the chat.'')] @
        map (\<lambda>cl. Send_line (conn cl) (''[SYSTEM] '' @ u @ '' has joined the chat.''))
          (clients w @ [\<lparr>conn = k, username = u\<rparr>]) @
        [Send_line k ''You are now in the chatroom. Type messages and press Enter.'',
         Send_line k ''Type '/quit' to exit.'']"
proof -
  have rows: "sql_limit 20 (rev (sort_key fst (messages w))) =
      Inr (take 20 (rev (sort_key fst (messages w))))"
    by (simp add: sql_limit_def)
  have "fst (get_recent_messages 20 w) = Inr (newest 20 (map snd (messages w)))"
    using assms(1,2) by (rule get_recent_messages_wf) simp_all
  then have newest: "map snd (rev (take 20 (rev (sort_key fst (messages w))))) =
      newest 20 (map snd (messages w))"
    using assms(2) by (simp add: get_recent_messages_eq rows)
  show ?thesis
    using assms(2,3,4)
    by (simp add: enter_chat_def andthen_def bind_def append_client_def send_line_eq
        get_recent_messages_eq rows newest replay_eq broadcast_message_eq
        healthy_accepts healthy_sent healthy_deliver)
qed


lemma finally_block_messages:
  "\<not> faults w (txn w) \<Longrightarrow>
   messages (snd (finally_block k (Some u) w)) =
     messages w @ [(seq w + 1, ''SYSTEM'', u @ '' has left the chat.'', clock w (ticks w))]"
  by (simp add: finally_block_def andthen_def bind_def remove_client_def close_def
      broadcast_message_eq)

text \<open>
  C10. Every broadcast that the store takes adds its row to the \<^verbatim>\<open>messages\<close> table,
  whoever the sender is: so do the join notice that the handler broadcasts after a
  login and the leave notice of its \<^verbatim>\<open>finally\<close> block, both with the sender
  \<open>SYSTEM\<close>. A handler that enters the chat on a socket that takes its lines sends
  one line of history for each of the last twenty rows of the table, whatever their
  sender, so the notices among them are replayed.
\<close>

theorem notices_persisted_and_replayed:
  assumes "wf_ids w" and "\<not> faults w (txn w)" and "\<not> faults w (txn w + 1)"
      and "healthy (socks w k)"
  shows "messages (snd (broadcast_message s c w)) =
       messages w @ [(seq w + 1, s, c, clock w (ticks w))] \<and>
     fst (enter_chat k u w) = Inr () \<and>
     messages (snd (enter_chat k u w)) =
       messages w @ [(seq w + 1, ''SYSTEM'', u @ '' has joined the chat.'', clock w (ticks w))] \<and>
     messages (snd (finally_block k (Some u) w)) =
       messages w @ [(seq w + 1, ''SYSTEM'', u @ '' has left the chat.'', clock w (ticks w))] \<and>
     new_events w (snd (enter_chat k u w)) =
        [Append_client k u, Send_line k ''--- Recent messages ---''] @
        map (\<lambda>row. Send_line k (history_line row)) (newest 20 (map snd (messages w))) @
        [Send_line k ''--- End of history ---'',
         Save_message ''SYSTEM'' (u @ '' has joined the chat.'')] @
        map (\<lambda>cl. Send_line (conn cl) (''[SYSTEM] '' @ u @ '' has joined the chat.''))
          (clients w @ [\<lparr>conn = k, username = u\<rparr>]) @
        [Send_line k ''You are now in the chatroom. Type messages and press Enter.'',
         Send_line k ''Type '/quit' to exit.''] \<and>
     (\<forall>row \<in> set (newest 20 (map snd (messages w))).
        Send_line k (history_line row) \<in> set (new_events w (snd (enter_chat k u w))))"
proof -
  note e = enter_chat_eq [OF assms, of u]
  have n: "new_events w (snd (enter_chat k u w)) =
        [Append_client k u, Send_line k ''--- Recent messages ---''] @
        map (\<lambda>row. Send_line k (history_line row)) (newest 20 (map snd (messages w))) @
        [Send_line k ''--- End of history ---'',
         Save_message ''SYSTEM'' (u @ '' has joined the chat.'')] @
        map (\<lambda>cl. Send_line (conn cl) (''[SYSTEM] '' @ u @ '' has joined the chat.''))
          (clients w @ [\<lparr>conn = k, username = u\<rparr>]) @
        [Send_line k ''You are now in the chatroom. Type messages and press Enter.'',
         Send_line k ''Type '/quit' to exit.'']"
    by (rule new_events_append) (use e in simp)
  have r: "Send_line k (history_line row) \<in> set (new_events w (snd (enter_chat k u w)))"
    if "row \<in> set (newest 20 (map snd (messages w)))" for row
    unfolding n using that by simp
  have b: "messages (snd (broadcast_message s c w)) =
       messages w @ [(seq w + 1, s, c, clock w (ticks w))]"
    using assms(2) by (simp add: broadcast_message_eq)
  show ?thesis
    using e n r b finally_block_messages [OF assms(2), of k u] by blast
qed

lemma after_visit_messages:
  "messages after_visit =
     [(1, ''SYSTEM'', ''alice has joined the chat.'', ''2025-01-01 12:00:00''),
      (2, ''alice'', ''hello'', ''2025-01-01 12:00:00''),
      (3, ''SYSTEM'', ''alice has left the chat.'', ''2025-01-01 12:00:00'')]"
  by (simp add: after_visit_def visit_def eval_simps)

lemma after_visit_store:
  "seq after_visit = 3" "faults after_visit n = False" "socks after_visit 2 = fresh_socket"
  by (simp_all add: after_visit_def visit_def eval_simps)

theorem notices_persisted_and_replayed_witness:
  "wf_ids after_visit \<and> \<not> faults after_visit (txn after_visit) \<and>
   \<not> faults after_visit (txn after_visit + 1) \<and> healthy (socks after_visit 2) \<and>
   messages after_visit =
     [(1, ''SYSTEM'', ''alice has joined the chat.'', ''2025-01-01 12:00:00''),
      (2, ''alice'', ''hello'', ''2025-01-01 12:00:00''),
      (3, ''SYSTEM'', ''alice has left the chat.'', ''2025-01-01 12:00:00'')] \<and>
   Send_line 2 ''[2025-01-01 12:00:00] SYSTEM: alice has joined the chat.'' \<in>
     set (new_events after_visit (snd (enter_chat 2 ''bob'' after_visit))) \<and>
   Send_line 2 ''[2025-01-01 12:00:00] SYSTEM: alice has left the chat.'' \<in>
     set (new_events after_visit (snd (enter_chat 2 ''bob'' after_visit))) \<and>
   messages (snd (enter_chat 2 ''bob'' after_visit)) =
     messages after_visit @ [(4, ''SYSTEM'', ''bob has joined the chat.'', ''2025-01-01 12:00:00'')]"
proof -
  have w: "wf_ids after_visit"
    by (simp add: wf_ids_def after_visit_messages after_visit_store)
  have f: "\<not> faults after_visit (txn after_visit)" "\<not> faults after_visit (txn after_visit + 1)"
    by (simp_all add: after_visit_store)
  have h: "healthy (socks after_visit 2)"
    by (simp add: after_visit_store healthy_def fresh_socket_def)
  have c: "clock after_visit (ticks after_visit) = ''2025-01-01 12:00:00''"
    by (simp add: after_visit_def visit_def eval_simps)
  have rows: "newest 20 (map snd (messages after_visit)) =
     [(''SYSTEM'', ''alice has joined the chat.'', ''2025-01-01 12:00:00''),
      (''alice'', ''hello'', ''2025-01-01 12:00:00''),
      (''SYSTEM'', ''alice has left the chat.'', ''2025-01-01 12:00:00'')]"
    by (simp add: after_visit_messages newest_def)
  note t = notices_persisted_and_replayed [OF w f h, of "''SYSTEM''" "''x''" "''bob''"]
  have 1: "Send_line 2 (history_line (''SYSTEM'', ''alice has joined the chat.'', ''2025-01-01 12:00:00''))
      \<in> set (new_events after_visit (snd (enter_chat 2 ''bob'' after_visit)))"
    using t rows by simp
  have 2: "Send_line 2 (history_line (''SYSTEM'', ''alice has left the chat.'', ''2025-01-01 12:00:00''))
      \<in> set (new_events after_visit (snd (enter_chat 2 ''bob'' after_visit)))"
    using t rows by simp
  have 3: "messages (snd (enter_chat 2 ''bob'' after_visit)) =
     messages after_visit @ [(4, ''SYSTEM'', ''bob has joined the chat.'', ''2025-01-01 12:00:00'')]"
    using t c by (simp add: after_visit_store)
  show ?thesis
    using w f h after_visit_messages 1 2 3 by (simp add: history_line_def)
qed

end
